theory Spec2Isabelle
  imports Main "HOL-Library.Monad_Syntax"
begin

section \<open>Data model of ftp.js\<close>

text \<open>
  A reply of the server as the response parser hands it to \<open>parseResponse\<close>:
  the fields \<open>code\<close>, \<open>text\<close>, \<open>isError\<close> and \<open>isMark\<close> that ftp.js reads.
\<close>

record response =
  code :: int
  rtext :: string
  isError :: bool
  isMark :: bool

text \<open>
  Modelled from the spec: the response parser (lib/ftp-response-parser) is not among the
  sources. Section 3 of the specification derives the two flags from the code:
  \<open>is_error\<close> is \<open>code \<in> [400, 599]\<close> and \<open>is_mark\<close> is \<open>code \<in> {100..199}\<close>.
\<close>

definition parsed :: "response \<Rightarrow> bool" where
  "parsed r \<longleftrightarrow>
     isError r = (400 \<le> code r \<and> code r \<le> 599) \<and>
     isMark r = (100 \<le> code r \<and> code r \<le> 199)"

text \<open>
  The object a callback may carry in its property \<open>expectsMark\<close>: the list \<open>marks\<close>
  and the optional number \<open>ignore\<close>.
\<close>

record expects =
  marks :: "int list"
  ignore :: "int option"

definition expectedMarks :: expects where
  "expectedMarks = \<lparr>marks = [125, 150], ignore = Some 226\<rparr>"

text \<open>An \<open>Error\<close> object: its message, and the property \<open>code\<close> when one was set.\<close>

record js_error =
  message :: string
  ecode :: "int option"

text \<open>
  The function values of ftp.js that end up as callbacks, one constructor for each
  function expression, with the variables the closure captures as arguments.
  \<open>UserFn n e\<close> is a function supplied by the caller, known by a number, with the
  \<open>expectsMark\<close> property it carries; calling it is recorded in the session.
\<close>

datatype callback =
    NOOP
  | UserFn nat "expects option"
  | EnqueueCb string callback
  | AuthAfterFeatures string callback
  | FeatCb callback
  | SystCb callback
  | AuthUserCb string string callback
  | AuthPassCb string string callback
  | AuthTypeCb callback response
  | SetTypeCb string callback
  | RenameCb string callback

fun expectsMark :: "callback \<Rightarrow> expects option" where
  "expectsMark (UserFn n e) = e"
| "expectsMark _ = None"

text \<open>The second argument of a callback call.\<close>

datatype arg = Undefined | Resp response | Feats "string list"

record command =
  action :: string
  callback :: callback

text \<open>
  The fields of the FTP object that the command queue reads and writes. \<open>wire\<close> is
  what has been written to the control socket, in order; \<open>invoked\<close> is the calls of
  caller-supplied functions, in order. \<open>writable\<close> stands for
  \<open>this.socket && this.socket.writable\<close>, and \<open>firstAction\<close> for the connect listener
  that \<open>execute\<close> hands to \<open>_createSocket\<close>.
\<close>

record session =
  user :: string
  pass :: string
  commandQueue :: "command list"
  inProgress :: bool
  ignoreCmdCode :: "int option"
  authenticated :: bool
  authenticating :: bool
  features :: "string list option"
  system :: "string option"
  xferType :: "string option"
  writable :: bool
  firstAction :: "(string \<times> callback) option"
  wire :: "string list"
  invoked :: "(nat \<times> js_error option \<times> arg) list"

section \<open>Strings\<close>

text \<open>
  Strings are ASCII text (the control connection of FTP is). \<open>trim\<close> removes the
  white space and line terminators of ASCII at both ends; \<open>toLowerCase\<close> maps the
  letters A to Z and \<open>toUpperCase\<close> the letters a to z.
\<close>

definition isSpace :: "char \<Rightarrow> bool" where
  "isSpace c \<longleftrightarrow> c \<in> set [CHR 0x09, CHR 0x0A, CHR 0x0B, CHR 0x0C, CHR 0x0D, CHR '' '']"

definition trim :: "string \<Rightarrow> string" where
  "trim s = rev (dropWhile isSpace (rev (dropWhile isSpace s)))"

definition lowerChar :: "char \<Rightarrow> char" where
  "lowerChar c =
     (let n = (of_char c :: nat) in if 65 \<le> n \<and> n \<le> 90 then char_of (n + 32) else c)"

definition toLowerCase :: "string \<Rightarrow> string" where
  "toLowerCase s = map lowerChar s"

definition upperChar :: "char \<Rightarrow> char" where
  "upperChar c =
     (let n = (of_char c :: nat) in if 97 \<le> n \<and> n \<le> 122 then char_of (n - 32) else c)"

definition toUpperCase :: "string \<Rightarrow> string" where
  "toUpperCase s = map upperChar s"

fun join :: "string \<Rightarrow> string list \<Rightarrow> string" where
  "join sep [] = []"
| "join sep [x] = x"
| "join sep (x # y # ys) = x @ sep @ join sep (y # ys)"

section \<open>The command queue\<close>

definition CRLF :: string where
  "CRLF = [CHR 0x0D, CHR 0x0A]"

definition send :: "string \<Rightarrow> session \<Rightarrow> session" where
  "send cmd s = (if cmd = [] then s else s\<lparr>wire := wire s @ [cmd @ CRLF]\<rparr>)"

definition nextCmd :: "session \<Rightarrow> session" where
  "nextCmd s =
     (case commandQueue s of
        [] \<Rightarrow> s
      | cmd # _ \<Rightarrow> if inProgress s then s else (send (action cmd) s)\<lparr>inProgress := True\<rparr>)"

definition push :: "command \<Rightarrow> session \<Rightarrow> session" where
  "push cmd s = s\<lparr>commandQueue := commandQueue s @ [cmd]\<rparr>"

text \<open>The test \<open>/^(feat|syst|user|pass)/.test(action)\<close> of \<open>runCommand\<close>.\<close>

definition authCommand :: "string \<Rightarrow> bool" where
  "authCommand a \<longleftrightarrow> take 4 a \<in> set [''feat'', ''syst'', ''user'', ''pass'']"

text \<open>\<open>_createSocket(port, host, firstAction)\<close>, as far as the queue sees it.\<close>

definition createSocket :: "(string \<times> callback) option \<Rightarrow> session \<Rightarrow> session" where
  "createSocket fa s = s\<lparr>authenticated := False, writable := True, firstAction := fa\<rparr>"

definition alreadyAuthenticating :: js_error where
  "alreadyAuthenticating =
     \<lparr>message = ''This client is already authenticating'', ecode = None\<rparr>"

section \<open>The feature list\<close>

definition CR :: char where "CR = CHR 0x0D"
definition LF :: char where "LF = CHR 0x0A"

text \<open>
  \<open>features.split(FTP_NEWLINE)\<close> with \<open>FTP_NEWLINE = /\r\n|\n/\<close>: a line feed, or a
  carriage return with the line feed after it, ends a piece; a carriage return alone
  does not.
\<close>

fun splitNewline :: "string \<Rightarrow> string list" where
  "splitNewline [] = [[]]"
| "splitNewline [c] = (if c = LF then [[], []] else [[c]])"
| "splitNewline (c # d # cs) =
     (if c = CR \<and> d = LF then [] # splitNewline cs
      else if c = LF then [] # splitNewline (d # cs)
      else (case splitNewline (d # cs) of
              [] \<Rightarrow> [[c]]
            | l # ls \<Rightarrow> (c # l) # ls))"

text \<open>\<open>xs.slice(1, -1)\<close>: without the first and the last element.\<close>

definition slice_1_m1 :: "'a list \<Rightarrow> 'a list" where
  "slice_1_m1 xs = butlast (tl xs)"

definition parseFeats :: "string \<Rightarrow> string list" where
  "parseFeats fs =
     filter (\<lambda>feat. feat \<noteq> [])
       (map (\<lambda>feat. toLowerCase (trim feat)) (slice_1_m1 (splitNewline fs)))"

section \<open>Callbacks, \<open>execute\<close> and the implicit chain\<close>

text \<open>The measure under which the calls below end.\<close>

fun rank :: "callback \<Rightarrow> nat" where
  "rank NOOP = 0"
| "rank (UserFn n e) = 0"
| "rank (EnqueueCb a cb) = 0"
| "rank (AuthAfterFeatures a cb) = 5"
| "rank (FeatCb k) = 4"
| "rank (SystCb k) = Suc (rank k)"
| "rank (AuthUserCb u p k) = Suc (max (rank k) 3)"
| "rank (AuthPassCb u p k) = Suc (max (rank k) 9)"
| "rank (AuthTypeCb k r) = Suc (rank k)"
| "rank (SetTypeCb t k) = Suc (rank k)"
| "rank (RenameCb to k) = Suc (max (rank k) 9)"

text \<open>The value of \<open>self.features\<close> as an argument.\<close>

definition featsArg :: "session \<Rightarrow> arg" where
  "featsArg s = (case features s of None \<Rightarrow> Undefined | Some fs \<Rightarrow> Feats fs)"

text \<open>
  \<open>apply_cb k e a\<close> is the call \<open>k(e, a)\<close>. \<open>runCmd\<close> is the function behind \<open>raw\<close>:
  its first argument is the list of the string arguments, its second the callback
  (\<open>NOOP\<close> when the last argument is not a function).

  The closures that read \<open>response.code\<close> or \<open>response.text\<close> are callbacks of queued
  commands; \<open>parse\<close> calls them with a response. For the other shapes of the second
  argument, which no call of ftp.js produces, the equations leave the session as it is.
\<close>

function (sequential)
  apply_cb :: "callback \<Rightarrow> js_error option \<Rightarrow> arg \<Rightarrow> session \<Rightarrow> session" and
  runCmd :: "string list \<Rightarrow> callback \<Rightarrow> session \<Rightarrow> session" and
  execute :: "string \<Rightarrow> callback \<Rightarrow> session \<Rightarrow> session" and
  runCommand :: "string \<Rightarrow> callback \<Rightarrow> session \<Rightarrow> session" and
  getFeatures :: "callback \<Rightarrow> session \<Rightarrow> session" and
  auth :: "string \<Rightarrow> string \<Rightarrow> callback \<Rightarrow> session \<Rightarrow> session"
where
  "apply_cb NOOP e a s = s"
| "apply_cb (UserFn n x) e a s = s\<lparr>invoked := invoked s @ [(n, e, a)]\<rparr>"
| "apply_cb (EnqueueCb act cb) e a s = nextCmd (push \<lparr>action = act, callback = cb\<rparr> s)"
| "apply_cb (AuthAfterFeatures act cb) e a s = auth (user s) (pass s) (EnqueueCb act cb) s"
| "apply_cb (FeatCb k) (Some err) a s =
     runCmd [''syst''] (SystCb k) (s\<lparr>features := Some []\<rparr>)"
| "apply_cb (FeatCb k) None (Resp r) s =
     runCmd [''syst''] (SystCb k) (s\<lparr>features := Some (parseFeats (rtext r))\<rparr>)"
| "apply_cb (FeatCb k) None a s = s"
| "apply_cb (SystCb k) (Some err) a s = apply_cb k None (featsArg s) s"
| "apply_cb (SystCb k) None (Resp r) s =
     (let s' = (if code r = 215 then s\<lparr>system := Some (toLowerCase (rtext r))\<rparr> else s)
      in apply_cb k None (featsArg s') s')"
| "apply_cb (SystCb k) None a s = s"
| "apply_cb (AuthUserCb u p k) (Some err) a s =
     apply_cb k (Some err) Undefined (s\<lparr>authenticating := False\<rparr>)"
| "apply_cb (AuthUserCb u p k) None (Resp r) s =
     (if code r \<notin> set [230, 331, 332]
      then apply_cb k None Undefined (s\<lparr>authenticating := False\<rparr>)
      else runCmd [''pass'', p] (AuthPassCb u p k) s)"
| "apply_cb (AuthUserCb u p k) None a s = s"
| "apply_cb (AuthPassCb u p k) (Some err) a s =
     apply_cb k (Some err) Undefined (s\<lparr>authenticating := False\<rparr>)"
| "apply_cb (AuthPassCb u p k) None (Resp r) s =
     (if code r \<in> set [230, 202]
      then runCmd [''type'', ''I''] (AuthTypeCb k r)
             (s\<lparr>authenticating := False, authenticated := True, user := u, pass := p\<rparr>)
      else if code r = 332
      then runCmd [''acct'', []] NOOP (s\<lparr>authenticating := False\<rparr>)
      else s\<lparr>authenticating := False\<rparr>)"
| "apply_cb (AuthPassCb u p k) None a s = s"
| "apply_cb (AuthTypeCb k r) e a s = apply_cb k None (Resp r) s"
| "apply_cb (SetTypeCb t k) None a s = apply_cb k None a (s\<lparr>xferType := Some t\<rparr>)"
| "apply_cb (SetTypeCb t k) (Some err) a s = apply_cb k (Some err) a s"
| "apply_cb (RenameCb to k) None a s = runCmd [''rnto'', to] k s"
| "apply_cb (RenameCb to k) (Some err) a s = apply_cb k (Some err) Undefined s"
| "runCmd [] cb s = execute ''undefined'' cb s"
| "runCmd (completeCmd # args) cb s =
     execute (trim (completeCmd @ '' '' @ join '' '' args)) cb s"
| "execute act cb s =
     (if writable s then runCommand act cb s
      else createSocket (Some (act, cb)) (s\<lparr>authenticated := False\<rparr>))"
| "runCommand act cb s =
     (if authenticated s \<or> authCommand act
      then nextCmd (push \<lparr>action = act, callback = cb\<rparr> s)
      else getFeatures (AuthAfterFeatures act cb) s)"
| "getFeatures cb s =
     (case features s of
        Some fs \<Rightarrow> apply_cb cb None (Feats fs) s
      | None \<Rightarrow> runCmd [''feat''] (FeatCb cb) s)"
| "auth u p cb s =
     (if authenticating s then apply_cb cb (Some alreadyAuthenticating) Undefined s
      else
        let u' = (if u = [] then ''anonymous'' else u);
            p' = (if p = [] then ''@anonymous'' else p)
        in runCmd [''user'', u'] (AuthUserCb u' p' cb) (s\<lparr>authenticating := True\<rparr>))"
  by pat_completeness auto


text \<open>The line that \<open>runCmd\<close> hands to \<open>execute\<close>.\<close>

definition commandLine :: "string list \<Rightarrow> string" where
  "commandLine xs =
     (case xs of [] \<Rightarrow> ''undefined'' | c # args \<Rightarrow> trim (c @ '' '' @ join '' '' args))"

definition call_measure ::
  "(callback \<times> js_error option \<times> arg \<times> session +
    (string list \<times> callback \<times> session + string \<times> callback \<times> session)) +
   (string \<times> callback \<times> session +
    (callback \<times> session + string \<times> string \<times> callback \<times> session)) \<Rightarrow> nat" where
  "call_measure x =
    (case x of
       Inl (Inl (k, e, a, s)) \<Rightarrow> rank k
     | Inl (Inr (Inl (xs, cb, s))) \<Rightarrow> (if authCommand (commandLine xs) then 3 else 9)
     | Inl (Inr (Inr (act, cb, s))) \<Rightarrow> (if authCommand act then 2 else 8)
     | Inr (Inl (act, cb, s)) \<Rightarrow> (if authCommand act then 1 else 7)
     | Inr (Inr (Inl (k, s))) \<Rightarrow> Suc (max (rank k) 3)
     | Inr (Inr (Inr (u, p, k, s))) \<Rightarrow> Suc (max (rank k) 3))"

lemma trim_keeps_word:
  assumes "w \<noteq> []" and "\<forall>c\<in>set w. \<not> isSpace c"
  shows "\<exists>y. trim (w @ x) = w @ y"
proof -
  obtain a w' where w: "w = a # w'"
    using assms(1) by (cases w) auto
  have front: "dropWhile isSpace (w @ x) = w @ x"
    using assms(2) w by simp
  have "\<not> isSpace (last w)"
    using assms by simp
  then have "dropWhile isSpace (rev w) = rev w"
    using assms(1) by (cases "rev w") (auto simp: last_rev hd_rev)
  then have "\<exists>z. dropWhile isSpace (rev x @ rev w) = z @ rev w"
    by (cases "\<forall>c\<in>set (rev x). isSpace c") (auto simp: dropWhile_append)
  then obtain z where "dropWhile isSpace (rev x @ rev w) = z @ rev w"
    by blast
  then show ?thesis
    unfolding trim_def front by simp
qed

lemma authCommand_trim:
  assumes "w \<in> set [''feat'', ''syst'', ''user'', ''pass'']"
  shows "authCommand (trim (w @ x))"
proof -
  have "w \<noteq> []" and "\<forall>c\<in>set w. \<not> isSpace c" and len: "length w = 4"
    using assms by (auto simp: isSpace_def)
  then obtain y where "trim (w @ x) = w @ y"
    using trim_keeps_word by blast
  then show ?thesis
    using assms len unfolding authCommand_def by auto
qed

lemma authCommand_line:
  "authCommand (commandLine [''syst''])"
  "authCommand (commandLine [''feat''])"
  "authCommand (commandLine [''user'', u])"
  "authCommand (commandLine [''pass'', p])"
  unfolding commandLine_def
  using authCommand_trim[of "''syst''"] authCommand_trim[of "''feat''"]
    authCommand_trim[of "''user''"] authCommand_trim[of "''pass''"]
  by simp_all

termination apply_cb
  apply (relation "measure call_measure")
  apply (simp_all add: call_measure_def authCommand_line)
  apply (auto simp: commandLine_def authCommand_line[unfolded commandLine_def, simplified])
  done

declare runCmd.simps [simp del] execute.simps [simp del] runCommand.simps [simp del]
  getFeatures.simps [simp del] auth.simps [simp del]

text \<open>The methods \<open>setType\<close> and \<open>rename\<close>.\<close>

definition setType :: "string \<Rightarrow> callback \<Rightarrow> session \<Rightarrow> session" where
  "setType t cb s =
     (if xferType s = Some (toUpperCase t) then apply_cb cb None Undefined s
      else runCmd [''type'', toUpperCase t] (SetTypeCb (toUpperCase t) cb) s)"

definition rename :: "string \<Rightarrow> string \<Rightarrow> callback \<Rightarrow> session \<Rightarrow> session" where
  "rename from to cb s = runCmd [''rnfr'', from] (RenameCb to cb) s"

section \<open>Pairing replies with commands\<close>

text \<open>The \<open>Error\<close> that \<open>parse\<close> builds from a reply with \<open>isError\<close>.\<close>

definition replyError :: "response \<Rightarrow> js_error option" where
  "replyError r =
     (if isError r
      then Some \<lparr>message = (if rtext r = [] then ''Unknown FTP error.'' else rtext r),
                 ecode = Some (code r)\<rparr>
      else None)"

definition parse :: "response \<Rightarrow> command \<Rightarrow> session \<Rightarrow> session" where
  "parse r cmd s =
     nextCmd ((apply_cb (callback cmd) (replyError r) (Resp r) s)\<lparr>inProgress := False\<rparr>)"

text \<open>
  The test \<open>!next.expectsMark || next.expectsMark.marks.indexOf(response.code) === -1\<close>.
\<close>

definition unexpectedMark :: "callback \<Rightarrow> response \<Rightarrow> bool" where
  "unexpectedMark next r =
     (case expectsMark next of
        None \<Rightarrow> True
      | Some em \<Rightarrow> code r \<notin> set (marks em))"

text \<open>
  The assignment \<open>if (next.expectsMark.ignore) this.ignoreCmdCode = next.expectsMark.ignore\<close>:
  the number zero is not truthy.
\<close>

definition armIgnore :: "callback \<Rightarrow> session \<Rightarrow> session" where
  "armIgnore next s =
     (case expectsMark next of
        None \<Rightarrow> s
      | Some em \<Rightarrow>
          (case ignore em of
             None \<Rightarrow> s
           | Some c \<Rightarrow> if c = 0 then s else s\<lparr>ignoreCmdCode := Some c\<rparr>))"

definition parseResponse :: "response \<Rightarrow> session \<Rightarrow> session" where
  "parseResponse r s =
     (case commandQueue s of
        [] \<Rightarrow> s
      | cmd # rest \<Rightarrow>
          if code r = 220 then s
          else if isMark r \<and> unexpectedMark (callback cmd) r then s
          else
            let s1 = (if isMark r then armIgnore (callback cmd) s else s)
            in if ignoreCmdCode s1 = Some (code r) then s1\<lparr>ignoreCmdCode := None\<rparr>
               else parse r cmd (s1\<lparr>commandQueue := rest\<rparr>))"

text \<open>
  The session that the constructor leaves: the defaults for absent options, an empty
  queue, and the socket that \<open>_createSocket\<close> has opened.
\<close>

definition newFTP :: "string \<Rightarrow> string \<Rightarrow> session" where
  "newFTP u p =
     \<lparr>user = (if u = [] then ''anonymous'' else u),
      pass = (if p = [] then ''@anonymous'' else p),
      commandQueue = [], inProgress = False, ignoreCmdCode = None,
      authenticated = False, authenticating = False, features = None, system = None,
      xferType = None,
      writable = True, firstAction = None, wire = [], invoked = []\<rparr>"

text \<open>A reply with the flags that the parser derives from its code.\<close>

definition reply :: "int \<Rightarrow> string \<Rightarrow> response" where
  "reply c t =
     \<lparr>code = c, rtext = t, isError = (400 \<le> c \<and> c \<le> 599), isMark = (100 \<le> c \<and> c \<le> 199)\<rparr>"

section \<open>Replies that are dropped\<close>

text \<open>
  Claim C4. A reply is dropped, with the whole session (queue, \<open>inProgress\<close>, calls of
  callbacks, words written) as it was, when the queue is empty, or the code is 220, or the
  reply is a mark and the callback of the head command has no \<open>expectsMark\<close> or one whose
  \<open>marks\<close> do not contain the code.
\<close>

theorem dropped_replies:
  assumes "commandQueue s = []
         \<or> code r = 220
         \<or> (\<exists>cmd rest. commandQueue s = cmd # rest \<and> isMark r \<and> unexpectedMark (callback cmd) r)"
  shows "parseResponse r s = s"
  using assms by (auto simp: parseResponse_def split: list.splits)

theorem dropped_replies_witness:
  "(\<exists>cmd rest.
      commandQueue (push \<lparr>action = ''noop'', callback = UserFn 0 None\<rparr> (newFTP [] [])) = cmd # rest
      \<and> isMark (reply 150 ''150 Opening'')
      \<and> unexpectedMark (callback cmd) (reply 150 ''150 Opening''))
   \<and> parseResponse (reply 150 ''150 Opening'')
        (push \<lparr>action = ''noop'', callback = UserFn 0 None\<rparr> (newFTP [] []))
      = push \<lparr>action = ''noop'', callback = UserFn 0 None\<rparr> (newFTP [] [])"
proof -
  have h: "\<exists>cmd rest.
      commandQueue (push \<lparr>action = ''noop'', callback = UserFn 0 None\<rparr> (newFTP [] [])) = cmd # rest
      \<and> isMark (reply 150 ''150 Opening'')
      \<and> unexpectedMark (callback cmd) (reply 150 ''150 Opening'')"
    by (simp add: push_def newFTP_def reply_def unexpectedMark_def)
  from h dropped_replies[of "push \<lparr>action = ''noop'', callback = UserFn 0 None\<rparr> (newFTP [] [])"
      "reply 150 ''150 Opening''"]
  show ?thesis by blast
qed

section \<open>Marks\<close>

lemma nextCmd_fields [simp]:
  "commandQueue (nextCmd s) = commandQueue s"
  "invoked (nextCmd s) = invoked s"
  "ignoreCmdCode (nextCmd s) = ignoreCmdCode s"
  by (simp_all add: nextCmd_def send_def split: list.splits)

lemma parsed_mark_codes:
  assumes "parsed r" and "code r \<in> set (marks expectedMarks)"
  shows "isMark r" and "\<not> isError r" and "code r \<noteq> 220" and "code r \<noteq> 226"
  using assms by (auto simp: parsed_def expectedMarks_def)

lemma parsed_226:
  assumes "parsed r" and "code r = 226"
  shows "\<not> isMark r" and "code r \<noteq> 220"
  using assms by (auto simp: parsed_def)

lemma parsed_reply [simp]: "parsed (reply c t)"
  by (simp add: parsed_def reply_def)

lemma expected_mark_step:
  assumes q: "commandQueue s = cmd # rest"
    and cb: "callback cmd = UserFn n (Some em)"
    and r: "isMark r" "code r \<noteq> 220" "code r \<in> set (marks em)"
    and ig: "ignore em = Some c" "c \<noteq> 0" "c \<noteq> code r"
  shows "parseResponse r s =
           nextCmd (s\<lparr>ignoreCmdCode := Some c, commandQueue := rest,
                      invoked := invoked s @ [(n, replyError r, Resp r)], inProgress := False\<rparr>)"
  using assms
  by (simp add: parseResponse_def unexpectedMark_def armIgnore_def parse_def)

text \<open>
  Claim C1. The head command carries \<open>expectsMark = {marks: [125, 150], ignore: 226}\<close>.
  A reply 125 or 150 calls its callback, once, with that reply and no error; the reply 226
  after it calls no callback and leaves the queue as it is.
\<close>

theorem mark_then_226:
  assumes q: "commandQueue s = cmd # rest"
    and cb: "callback cmd = UserFn n (Some expectedMarks)"
    and r: "parsed r" "code r = 125 \<or> code r = 150"
    and r2: "parsed r2" "code r2 = 226"
  shows "invoked (parseResponse r s) = invoked s @ [(n, None, Resp r)]
       \<and> invoked (parseResponse r2 (parseResponse r s)) = invoked (parseResponse r s)
       \<and> commandQueue (parseResponse r2 (parseResponse r s)) = commandQueue (parseResponse r s)"
proof -
  have m: "code r \<in> set (marks expectedMarks)"
    using r(2) by (auto simp: expectedMarks_def)
  note pm = parsed_mark_codes[OF r(1) m]
  have step: "parseResponse r s =
           nextCmd (s\<lparr>ignoreCmdCode := Some 226, commandQueue := rest,
                      invoked := invoked s @ [(n, replyError r, Resp r)], inProgress := False\<rparr>)"
    using expected_mark_step[OF q cb pm(1) pm(3) m, of 226] pm(4)
    by (simp add: expectedMarks_def)
  have e: "replyError r = None"
    using pm(2) by (simp add: replyError_def)
  have one: "invoked (parseResponse r s) = invoked s @ [(n, None, Resp r)]"
    by (simp add: step e)
  have ig: "ignoreCmdCode (parseResponse r s) = Some 226"
    by (simp add: step)
  note p2 = parsed_226[OF r2]
  have "invoked (parseResponse r2 (parseResponse r s)) = invoked (parseResponse r s)
      \<and> commandQueue (parseResponse r2 (parseResponse r s)) = commandQueue (parseResponse r s)"
    using ig p2 r2(2)
    by (cases "commandQueue (parseResponse r s)") (simp_all add: parseResponse_def[of r2])
  with one show ?thesis by simp
qed

text \<open>A session with one transfer command in flight, and one with a second command behind it.\<close>

definition listing :: session where
  "listing = nextCmd (push \<lparr>action = ''list'', callback = UserFn 0 (Some expectedMarks)\<rparr>
                        ((newFTP [] [])\<lparr>authenticated := True\<rparr>))"

definition listing_noop :: session where
  "listing_noop = nextCmd (push \<lparr>action = ''noop'', callback = UserFn 1 None\<rparr> listing)"

theorem mark_then_226_witness:
  "invoked (parseResponse (reply 150 ''150 Opening'') listing_noop)
     = [(0, None, Resp (reply 150 ''150 Opening''))]
   \<and> invoked (parseResponse (reply 226 ''226 Done'')
                (parseResponse (reply 150 ''150 Opening'') listing_noop))
     = [(0, None, Resp (reply 150 ''150 Opening''))]
   \<and> commandQueue (parseResponse (reply 226 ''226 Done'')
                (parseResponse (reply 150 ''150 Opening'') listing_noop))
     = [\<lparr>action = ''noop'', callback = UserFn 1 None\<rparr>]"
proof -
  have q: "commandQueue listing_noop =
      \<lparr>action = ''list'', callback = UserFn 0 (Some expectedMarks)\<rparr>
        # [\<lparr>action = ''noop'', callback = UserFn 1 None\<rparr>]"
    by (simp add: listing_noop_def listing_def push_def newFTP_def)
  have i: "invoked listing_noop = []"
    by (simp add: listing_noop_def listing_def push_def newFTP_def)
  have c: "code (reply 150 ''150 Opening'') = 125 \<or> code (reply 150 ''150 Opening'') = 150"
    by (simp add: reply_def)
  have c2: "code (reply 226 ''226 Done'') = 226"
    by (simp add: reply_def)
  have q1: "commandQueue (parseResponse (reply 150 ''150 Opening'') listing_noop)
      = [\<lparr>action = ''noop'', callback = UserFn 1 None\<rparr>]"
    using q by (simp add: parseResponse_def reply_def unexpectedMark_def armIgnore_def
        expectedMarks_def parse_def)
  from mark_then_226[OF q _ parsed_reply c parsed_reply c2, of 0] i q1
  show ?thesis by simp
qed

text \<open>
  Claim C2, as the code has it. A mark that the head command expects arms
  \<open>ignoreCmdCode\<close> with \<open>expectsMark.ignore\<close> (a code that is not zero and not the
  code of the mark) and the command is taken from the queue at once, its callback called
  with the mark: it does not stay at the head until a later reply.
\<close>

theorem expected_mark_pops:
  assumes q: "commandQueue s = cmd # rest"
    and em: "expectsMark (callback cmd) = Some em"
    and r: "parsed r" "isMark r" "code r \<in> set (marks em)"
    and ig: "ignore em = Some c" "c \<noteq> 0" "c \<noteq> code r"
  shows "parseResponse r s = parse r cmd (s\<lparr>ignoreCmdCode := Some c, commandQueue := rest\<rparr>)
       \<and> ignoreCmdCode (parseResponse r s) = Some c
       \<and> commandQueue (parseResponse r s) = rest"
proof -
  obtain n where cb: "callback cmd = UserFn n (Some em)"
    using em by (cases "callback cmd") auto
  have c220: "code r \<noteq> 220"
    using r(1,2) by (auto simp: parsed_def)
  have step: "parseResponse r s =
           nextCmd (s\<lparr>ignoreCmdCode := Some c, commandQueue := rest,
                      invoked := invoked s @ [(n, replyError r, Resp r)], inProgress := False\<rparr>)"
    by (rule expected_mark_step[OF q cb r(2) c220 r(3) ig])
  have "parse r cmd (s\<lparr>ignoreCmdCode := Some c, commandQueue := rest\<rparr>) = parseResponse r s"
    by (simp add: step parse_def cb)
  then show ?thesis
    by (simp add: step)
qed

theorem expected_mark_pops_witness:
  "parseResponse (reply 150 ''150 Opening'') listing
     = parse (reply 150 ''150 Opening'')
         \<lparr>action = ''list'', callback = UserFn 0 (Some expectedMarks)\<rparr>
         (listing\<lparr>ignoreCmdCode := Some 226, commandQueue := []\<rparr>)
   \<and> ignoreCmdCode (parseResponse (reply 150 ''150 Opening'') listing) = Some 226
   \<and> commandQueue (parseResponse (reply 150 ''150 Opening'') listing) = []"
proof -
  have q: "commandQueue listing = [\<lparr>action = ''list'', callback = UserFn 0 (Some expectedMarks)\<rparr>]"
    by (simp add: listing_def push_def newFTP_def)
  have m: "isMark (reply 150 ''150 Opening'')"
    "code (reply 150 ''150 Opening'') \<in> set (marks expectedMarks)"
    "ignore expectedMarks = Some 226" "(226::int) \<noteq> 0"
    "226 \<noteq> code (reply 150 ''150 Opening'')"
    by (simp_all add: reply_def expectedMarks_def)
  have e: "expectsMark (callback \<lparr>action = ''list'', callback = UserFn 0 (Some expectedMarks)\<rparr>)
      = Some expectedMarks"
    by simp
  show ?thesis
    by (rule expected_mark_pops[OF q e parsed_reply m])
qed

text \<open>
  Claim C2 as it is written fails: the reply 150 arms the code 226 and the command
  \<open>list\<close>, alone in the queue, is gone from it.
\<close>

theorem mark_keeps_head_counterexample:
  "commandQueue listing = [\<lparr>action = ''list'', callback = UserFn 0 (Some expectedMarks)\<rparr>]
   \<and> ignoreCmdCode (parseResponse (reply 150 ''150 Opening'') listing) = Some 226
   \<and> commandQueue (parseResponse (reply 150 ''150 Opening'') listing) = []"
  by (simp add: listing_def push_def newFTP_def parseResponse_def reply_def unexpectedMark_def
      armIgnore_def expectedMarks_def parse_def)

section \<open>An armed code and an empty queue\<close>

text \<open>
  Claim C9. With \<open>ignoreCmdCode\<close> armed and the queue empty, a reply is dropped and the
  code stays armed (the session is as before). A command that is executed afterwards is then
  alone in the queue with the code still armed, and a reply with that code that is not a mark
  calls no callback and leaves the command in the queue.
\<close>

theorem armed_code_outlives_empty_queue:
  assumes "commandQueue s = []"
    and "ignoreCmdCode s = Some c"
    and "writable s"
    and "authenticated s \<or> authCommand act"
    and "\<not> isMark r2"
    and "code r2 = c"
  shows "parseResponse r s = s
       \<and> commandQueue (execute act cb s) = [\<lparr>action = act, callback = cb\<rparr>]
       \<and> ignoreCmdCode (execute act cb s) = Some c
       \<and> invoked (parseResponse r2 (execute act cb s)) = invoked (execute act cb s)
       \<and> commandQueue (parseResponse r2 (execute act cb s)) = commandQueue (execute act cb s)"
proof -
  have drop: "parseResponse r s = s"
    using assms(1) by (simp add: parseResponse_def)
  have ex: "execute act cb s = nextCmd (push \<lparr>action = act, callback = cb\<rparr> s)"
    using assms(3,4) by (auto simp: execute.simps runCommand.simps)
  have q: "commandQueue (execute act cb s) = [\<lparr>action = act, callback = cb\<rparr>]"
    using assms(1) by (simp add: ex push_def)
  have ig: "ignoreCmdCode (execute act cb s) = Some c"
    using assms(2) by (simp add: ex push_def)
  have "invoked (parseResponse r2 (execute act cb s)) = invoked (execute act cb s)
      \<and> commandQueue (parseResponse r2 (execute act cb s)) = commandQueue (execute act cb s)"
    using q ig assms(5,6) by (simp add: parseResponse_def[of r2])
  with drop q ig show ?thesis by simp
qed

text \<open>
  The transfer of \<open>listing\<close> has had its mark, the queue is empty and 226 is armed: the
  reply 226 of the transfer is dropped by the test for the empty queue, and the reply 226
  to a later \<open>abor\<close> is swallowed.
\<close>

theorem armed_code_outlives_empty_queue_witness:
  "commandQueue (parseResponse (reply 150 ''150 Opening'') listing) = []
   \<and> ignoreCmdCode (parseResponse (reply 150 ''150 Opening'') listing) = Some 226
   \<and> parseResponse (reply 226 ''226 Done'') (parseResponse (reply 150 ''150 Opening'') listing)
       = parseResponse (reply 150 ''150 Opening'') listing
   \<and> commandQueue (execute ''abor'' (UserFn 1 None)
        (parseResponse (reply 150 ''150 Opening'') listing))
       = [\<lparr>action = ''abor'', callback = UserFn 1 None\<rparr>]
   \<and> invoked (parseResponse (reply 226 ''226 Abort ok'')
        (execute ''abor'' (UserFn 1 None) (parseResponse (reply 150 ''150 Opening'') listing)))
       = invoked (execute ''abor'' (UserFn 1 None)
           (parseResponse (reply 150 ''150 Opening'') listing))
   \<and> commandQueue (parseResponse (reply 226 ''226 Abort ok'')
        (execute ''abor'' (UserFn 1 None) (parseResponse (reply 150 ''150 Opening'') listing)))
       = [\<lparr>action = ''abor'', callback = UserFn 1 None\<rparr>]"
proof -
  let ?s = "parseResponse (reply 150 ''150 Opening'') listing"
  have q: "commandQueue ?s = []" and ig: "ignoreCmdCode ?s = Some 226"
    and w: "writable ?s" and a: "authenticated ?s \<or> authCommand ''abor''"
    by (simp_all add: listing_def push_def newFTP_def parseResponse_def reply_def
        unexpectedMark_def armIgnore_def expectedMarks_def parse_def nextCmd_def send_def)
  have r2: "\<not> isMark (reply 226 ''226 Abort ok'')" "code (reply 226 ''226 Abort ok'') = 226"
    by (simp_all add: reply_def)
  from armed_code_outlives_empty_queue[OF q ig w a r2, of "reply 226 ''226 Done''" "UserFn 1 None"]
    q ig
  show ?thesis by simp
qed

section \<open>The passive endpoint\<close>

text \<open>
  The pattern \<open>RE_PASV\<close> is a sequence of two kinds of items: a character class under
  \<open>+\<close> and a literal character. \<open>matchSeq\<close> matches such a sequence at the start of a
  string the way the backtracking matcher of JavaScript does: \<open>+\<close> is greedy, so the
  longest run is tried first and shorter ones after it, and the first way that lets the rest
  of the pattern match is taken. The result is the piece of the string that each item took.
\<close>

datatype atom = Many1 "char \<Rightarrow> bool" | Lit char

fun firstOf :: "'a option list \<Rightarrow> 'a option" where
  "firstOf [] = None"
| "firstOf (Some x # xs) = Some x"
| "firstOf (None # xs) = firstOf xs"

fun matchSeq :: "atom list \<Rightarrow> string \<Rightarrow> string list option" where
  "matchSeq [] s = Some []"
| "matchSeq (Lit c # as) s =
     (case s of
        [] \<Rightarrow> None
      | x # xs \<Rightarrow> if x = c then map_option ((#) [x]) (matchSeq as xs) else None)"
| "matchSeq (Many1 P # as) s =
     firstOf (map (\<lambda>n. map_option ((#) (take n s)) (matchSeq as (drop n s)))
                  (rev [1..<Suc (length (takeWhile P s))]))"

text \<open>The class \<open>[-\d]\<close>, and the pattern \<open>/([-\d]+,[-\d]+,[-\d]+,[-\d]+),([-\d]+),([-\d]+)/\<close>.\<close>

definition isDigit :: "char \<Rightarrow> bool" where
  "isDigit c \<longleftrightarrow> (let n = (of_char c :: nat) in 48 \<le> n \<and> n \<le> 57)"

definition pasvChar :: "char \<Rightarrow> bool" where
  "pasvChar c \<longleftrightarrow> c = CHR ''-'' \<or> isDigit c"

definition RE_PASV :: "atom list" where
  "RE_PASV = [Many1 pasvChar, Lit CHR '','', Many1 pasvChar, Lit CHR '','',
              Many1 pasvChar, Lit CHR '','', Many1 pasvChar, Lit CHR '','',
              Many1 pasvChar, Lit CHR '','', Many1 pasvChar]"

text \<open>\<open>re.exec(txt)\<close>: the match at the leftmost position that has one.\<close>

definition exec :: "atom list \<Rightarrow> string \<Rightarrow> string list option" where
  "exec re txt = firstOf (map (\<lambda>i. matchSeq re (drop i txt)) [0..<Suc (length txt)])"

text \<open>
  \<open>parseInt(str, 10)\<close>: white space is skipped, a sign is read, then the longest run of
  digits; \<open>None\<close> is \<open>NaN\<close>. The value is the exact integer, as the number of JavaScript
  is for fewer than sixteen digits. \<open>and255\<close> is \<open>& 255\<close> on it (\<open>NaN\<close> becomes 0, a
  negative number is taken in two's complement).
\<close>

definition digitVal :: "char \<Rightarrow> int" where
  "digitVal c = int (of_char c) - 48"

definition parseInt10 :: "string \<Rightarrow> int option" where
  "parseInt10 str =
     (let t = dropWhile isSpace str;
          neg = (t \<noteq> [] \<and> hd t = CHR ''-'');
          u = (if t \<noteq> [] \<and> (hd t = CHR ''-'' \<or> hd t = CHR ''+'') then tl t else t);
          ds = takeWhile isDigit u
      in if ds = [] then None
         else Some ((if neg then -1 else 1) * foldl (\<lambda>a c. a * 10 + digitVal c) 0 ds))"

definition and255 :: "int option \<Rightarrow> int" where
  "and255 v = (case v of None \<Rightarrow> 0 | Some n \<Rightarrow> n mod 256)"

text \<open>The object that \<open>getPasvPort\<close> returns; \<open>None\<close> is \<open>null\<close>.\<close>

record pasv =
  host :: string
  port :: int

definition getPasvPort :: "string \<Rightarrow> pasv option" where
  "getPasvPort txt =
     (case exec RE_PASV txt of
        Some [a, c1, b, c2, c, c3, d, c4, m2, c5, m3] \<Rightarrow>
          Some \<lparr>host = map (\<lambda>x. if x = CHR '','' then CHR ''.'' else x) (a @ c1 @ b @ c2 @ c @ c3 @ d),
                port = and255 (parseInt10 m2) * 256 + and255 (parseInt10 m3)\<rparr>
      | _ \<Rightarrow> None)"

text \<open>The decimal numeral of a number, as a canonical reply has it.\<close>

fun decimal :: "nat \<Rightarrow> string" where
  "decimal n = (if n < 10 then [char_of (48 + n)] else decimal (n div 10) @ [char_of (48 + n mod 10)])"


lemma firstOf_all_None: "(\<forall>x\<in>set xs. x = None) \<Longrightarrow> firstOf (xs @ ys) = firstOf ys"
  by (induction xs) auto

lemma firstOf_map_None: "(\<forall>x\<in>set xs. f x = None) \<Longrightarrow> firstOf (map f xs) = None"
  by (induction xs) auto

lemma rev_upt_Suc: "0 < n \<Longrightarrow> rev [1..<Suc n] = n # rev [1..<n]"
  by (cases n) auto

lemma many1_lit_fail:
  assumes "\<And>n. 1 \<le> n \<Longrightarrow> n \<le> length (takeWhile P s) \<Longrightarrow> drop n s = [] \<or> hd (drop n s) \<noteq> c"
  shows "matchSeq (Many1 P # Lit c # as) s = None"
proof -
  have "\<forall>n\<in>set (rev [1..<Suc (length (takeWhile P s))]).
          map_option ((#) (take n s)) (matchSeq (Lit c # as) (drop n s)) = None"
  proof
    fix n assume "n \<in> set (rev [1..<Suc (length (takeWhile P s))])"
    then have "1 \<le> n" "n \<le> length (takeWhile P s)" by auto
    from assms[OF this] show "map_option ((#) (take n s)) (matchSeq (Lit c # as) (drop n s)) = None"
      by (cases "drop n s") auto
  qed
  then show ?thesis
    by (simp only: matchSeq.simps(3) firstOf_map_None)
qed

lemma takeWhile_run:
  assumes "\<forall>x\<in>set run. P x" and "rest = [] \<or> \<not> P (hd rest)"
  shows "takeWhile P (run @ rest) = run"
  using assms by (cases rest) (auto simp: takeWhile_append2 takeWhile_append1)

lemma many1_lit:
  assumes run: "run \<noteq> []" "\<forall>x\<in>set run. P x" and c: "\<not> P c"
  shows "matchSeq (Many1 P # Lit c # as) (run @ c # rest)
           = map_option (\<lambda>ps. run # [c] # ps) (matchSeq as rest)"
proof -
  let ?s = "run @ c # rest"
  let ?f = "\<lambda>n. map_option ((#) (take n ?s)) (matchSeq (Lit c # as) (drop n ?s))"
  have tw: "takeWhile P ?s = run"
    using run(2) c by (intro takeWhile_run) auto
  have len: "0 < length run" using run(1) by simp
  have shorter: "\<forall>n\<in>set (rev [1..<length run]). ?f n = None"
  proof
    fix n assume "n \<in> set (rev [1..<length run])"
    then have n: "n < length run" by auto
    then obtain x xs where d: "drop n run = x # xs"
      by (cases "drop n run") auto
    then have "x \<in> set run" by (metis in_set_dropD list.set_intros(1))
    then have "x \<noteq> c" using run(2) c by auto
    then show "?f n = None" using n d by simp
  qed
  have "matchSeq (Many1 P # Lit c # as) ?s = firstOf (?f (length run) # map ?f (rev [1..<length run]))"
    by (simp only: matchSeq.simps(3) tw rev_upt_Suc[OF len] list.map)
  also have "\<dots> = map_option (\<lambda>ps. run # [c] # ps) (matchSeq as rest)"
  proof (cases "matchSeq as rest")
    case None
    then have "?f (length run) = None" by simp
    then show ?thesis using None firstOf_map_None[OF shorter] by simp
  next
    case (Some ps)
    then show ?thesis by simp
  qed
  finally show ?thesis .
qed

lemma many1_last:
  assumes run: "run \<noteq> []" "\<forall>x\<in>set run. P x" and rest: "rest = [] \<or> \<not> P (hd rest)"
  shows "matchSeq [Many1 P] (run @ rest) = Some [run]"
proof -
  have tw: "takeWhile P (run @ rest) = run"
    using run(2) rest by (rule takeWhile_run)
  have len: "0 < length run" using run(1) by simp
  show ?thesis
    by (simp only: matchSeq.simps(3) tw rev_upt_Suc[OF len] list.map) simp
qed

lemma exec_at:
  assumes before: "\<And>i. i < length pre \<Longrightarrow> matchSeq re (drop i (pre @ s)) = None"
    and here: "matchSeq re s = Some ps"
  shows "exec re (pre @ s) = Some ps"
proof -
  have split: "[0..<Suc (length (pre @ s))] = [0..<length pre] @ length pre # [Suc (length pre)..<Suc (length (pre @ s))]"
    by (metis (no_types, lifting) length_append less_Suc_eq_le le_add1 upt_add_eq_append upt_conv_Cons
        zero_le add_Suc_right)
  have "\<forall>x\<in>set (map (\<lambda>i. matchSeq re (drop i (pre @ s))) [0..<length pre]). x = None"
    using before by auto
  then show ?thesis
    unfolding exec_def split map_append
    by (subst firstOf_all_None) (simp_all add: here)
qed


declare decimal.simps [simp del] matchSeq.simps(3) [simp del]

text \<open>
  The callback that \<open>getPasvSocket\<close> hands to \<open>execute('pasv', ...)\<close>, as a function of
  its arguments: \<open>Inl e\<close> is \<open>callback(e)\<close>, and \<open>Inr options\<close> is
  \<open>callback(null, socket)\<close> with \<open>socket = Net.createConnection(options)\<close>.
\<close>

definition badPassive :: js_error where
  "badPassive = \<lparr>message = ''Bad passive host/port combination'', ecode = None\<rparr>"

definition pasvReply :: "js_error option \<Rightarrow> response \<Rightarrow> js_error + pasv" where
  "pasvReply error r =
     (case error of
        Some e \<Rightarrow> Inl e
      | None \<Rightarrow>
          (case getPasvPort (rtext r) of
             None \<Rightarrow> Inl badPassive
           | Some options \<Rightarrow> Inr options))"

lemma of_char_digit: "k < 10 \<Longrightarrow> (of_char (char_of (48 + k :: nat)) :: nat) = 48 + k"
  by simp

lemma decimal_digits: "c \<in> set (decimal n) \<Longrightarrow> isDigit c"
proof (induction n rule: decimal.induct)
  case (1 n)
  show ?case
  proof (cases "n < 10")
    case True
    with "1.prems" have "c = char_of (48 + n)" by (subst (asm) decimal.simps) simp
    then show ?thesis using True by (simp add: isDigit_def)
  next
    case False
    with "1.prems" have "c \<in> set (decimal (n div 10)) \<or> c = char_of (48 + n mod 10)"
      by (subst (asm) decimal.simps) auto
    then show ?thesis
    proof
      assume "c \<in> set (decimal (n div 10))"
      then show ?thesis using "1.IH" False by simp
    next
      assume "c = char_of (48 + n mod 10)"
      moreover have "n mod 10 < 10" by simp
      ultimately show ?thesis unfolding isDigit_def Let_def
        using of_char_digit[of "n mod 10"] by simp
    qed
  qed
qed

lemma decimal_nonempty: "decimal n \<noteq> []"
  by (subst decimal.simps) simp

lemma digit_facts:
  assumes "isDigit c"
  shows "pasvChar c" "\<not> isSpace c" "c \<noteq> CHR ''-''" "c \<noteq> CHR ''+''" "c \<noteq> CHR '',''"
  using assms by (auto simp: pasvChar_def isDigit_def isSpace_def Let_def)

lemma decimal_value: "foldl (\<lambda>a c. a * 10 + digitVal c) 0 (decimal n) = int n"
proof (induction n rule: decimal.induct)
  case (1 n)
  show ?case
  proof (cases "n < 10")
    case True
    then show ?thesis by (subst decimal.simps) (simp add: digitVal_def)
  next
    case False
    have m: "n mod 10 < 10" by simp
    have "foldl (\<lambda>a c. a * 10 + digitVal c) 0 (decimal n)
        = int (n div 10) * 10 + digitVal (char_of (48 + n mod 10))"
      using False "1.IH" by (subst decimal.simps) simp
    also have "digitVal (char_of (48 + n mod 10)) = int (n mod 10)"
      unfolding digitVal_def using of_char_digit[OF m] by simp
    finally show ?thesis by (simp add: zmod_int zdiv_int) 
  qed
qed

lemma parseInt10_decimal: "parseInt10 (decimal n) = Some (int n)"
proof -
  obtain c cs where d: "decimal n = c # cs"
    using decimal_nonempty[of n] by (cases "decimal n") auto
  then have "isDigit c" using decimal_digits[of c n] by simp
  note f = digit_facts[OF this]
  have tw: "takeWhile isDigit (decimal n) = decimal n"
    using decimal_digits by (simp add: takeWhile_eq_all_conv)
  have "parseInt10 (c # cs) = Some (foldl (\<lambda>a c. a * 10 + digitVal c) 0 (c # cs))"
    unfolding parseInt10_def using f tw[unfolded d] by (simp add: Let_def)
  then show ?thesis using decimal_value[of n] d by simp
qed

lemma decimal_pasv: "\<forall>x\<in>set (decimal n). pasvChar x"
  using decimal_digits digit_facts(1) by blast

lemma comma_no_pasv: "\<not> pasvChar CHR '',''"
  by (simp add: pasvChar_def isDigit_def)

lemma dots_decimal: "map (\<lambda>x. if x = CHR '','' then CHR ''.'' else x) (decimal n) = decimal n"
  using decimal_digits digit_facts(5) by (intro map_idI) auto

lemma match_group:
  assumes post: "post = [] \<or> \<not> pasvChar (hd post)"
  shows "matchSeq RE_PASV
           (decimal h1 @ CHR '','' # decimal h2 @ CHR '','' # decimal h3 @ CHR '','' # decimal h4
              @ CHR '','' # decimal p1 @ CHR '','' # decimal p2 @ post)
         = Some [decimal h1, '','', decimal h2, '','', decimal h3, '','', decimal h4, '','',
                 decimal p1, '','', decimal p2]"
  unfolding RE_PASV_def
  by (simp add: many1_lit[OF decimal_nonempty decimal_pasv comma_no_pasv]
      many1_last[OF decimal_nonempty decimal_pasv post])

lemma takeWhile_short:
  assumes "x \<in> set t" and "\<not> P x"
  shows "length (takeWhile P t) < length t"
proof -
  have "takeWhile P t \<noteq> t"
    using assms by (auto simp: takeWhile_eq_all_conv)
  moreover have "takeWhile P t = take (length (takeWhile P t)) t"
    by (rule takeWhile_eq_take)
  moreover have "length (takeWhile P t) \<le> length t"
    by (rule length_takeWhile_le)
  ultimately show ?thesis
    by (cases "length (takeWhile P t) = length t") auto
qed

lemma many1_stops_inside:
  assumes t: "t \<noteq> []" "\<not> P (last t)" and nc: "c \<notin> set t"
  shows "matchSeq (Many1 P # Lit c # as) (t @ g) = None"
proof (rule many1_lit_fail)
  fix n assume "1 \<le> n" and le: "n \<le> length (takeWhile P (t @ g))"
  have x: "last t \<in> set t" using t(1) by (rule last_in_set)
  have "takeWhile P (t @ g) = takeWhile P t"
    using x t(2) by (rule takeWhile_append1)
  with le takeWhile_short[of "last t" t P, OF x t(2)] have n: "n < length t" by simp
  then obtain y ys where d: "drop n t = y # ys" by (cases "drop n t") auto
  then have "y \<in> set t" by (metis in_set_dropD list.set_intros(1))
  then have "y \<noteq> c" using nc by auto
  then show "drop n (t @ g) = [] \<or> hd (drop n (t @ g)) \<noteq> c"
    using n d by simp
qed

lemma no_match_before:
  assumes pre: "CHR '','' \<notin> set pre" "\<not> pasvChar (last pre)" and i: "i < length pre"
  shows "matchSeq RE_PASV (drop i (pre @ g)) = None"
proof -
  have t: "drop i pre \<noteq> []" using i by simp
  have lt: "\<not> pasvChar (last (drop i pre))" using i pre(2) by simp
  have nc: "CHR '','' \<notin> set (drop i pre)" using pre(1) by (meson in_set_dropD)
  have d: "drop i (pre @ g) = drop i pre @ g" using i by simp
  show ?thesis
    unfolding d RE_PASV_def by (rule many1_stops_inside[of "drop i pre" pasvChar, OF t lt nc])
qed

text \<open>
  Claim C3. The six numbers, each at most 255, are written in decimal with commas between
  them; before the group the text has no comma and does not end in a digit or a minus sign,
  and after the group no digit or minus sign follows (as in
  \<open>227 Entering Passive Mode (h1,h2,h3,h4,p1,p2)\<close>). Then \<open>getPasvPort\<close> returns the
  host \<open>h1.h2.h3.h4\<close> and the port \<open>p1 * 256 + p2\<close>. And when the pattern matches
  nowhere in the text of a reply, the callback of \<open>getPasvSocket\<close> is called with the
  error \<open>Bad passive host/port combination\<close>.
\<close>

theorem pasv_round_trip:
  assumes "h1 \<le> 255" "h2 \<le> 255" "h3 \<le> 255" "h4 \<le> 255" "p1 \<le> 255" "p2 \<le> 255"
    and pre: "CHR '','' \<notin> set pre" "pre = [] \<or> \<not> pasvChar (last pre)"
    and post: "post = [] \<or> \<not> pasvChar (hd post)"
  shows "getPasvPort (pre @ decimal h1 @ '','' @ decimal h2 @ '','' @ decimal h3 @ '','' @ decimal h4
                        @ '','' @ decimal p1 @ '','' @ decimal p2 @ post)
           = Some \<lparr>host = decimal h1 @ ''.'' @ decimal h2 @ ''.'' @ decimal h3 @ ''.'' @ decimal h4,
                   port = int p1 * 256 + int p2\<rparr>
       \<and> (\<forall>r. exec RE_PASV (rtext r) = None \<longrightarrow> pasvReply None r = Inl badPassive)"
proof -
  let ?g = "decimal h1 @ CHR '','' # decimal h2 @ CHR '','' # decimal h3 @ CHR '','' # decimal h4
              @ CHR '','' # decimal p1 @ CHR '','' # decimal p2 @ post"
  have before: "\<And>i. i < length pre \<Longrightarrow> matchSeq RE_PASV (drop i (pre @ ?g)) = None"
    using pre no_match_before by (cases "pre = []") auto
  have ex: "exec RE_PASV (pre @ ?g)
      = Some [decimal h1, '','', decimal h2, '','', decimal h3, '','', decimal h4, '','',
                 decimal p1, '','', decimal p2]"
    by (rule exec_at[OF before match_group[OF post]])
  have ports: "and255 (parseInt10 (decimal p1)) = int p1" "and255 (parseInt10 (decimal p2)) = int p2"
    using assms(5,6) by (simp_all add: parseInt10_decimal and255_def)
  have "getPasvPort (pre @ ?g)
      = Some \<lparr>host = decimal h1 @ ''.'' @ decimal h2 @ ''.'' @ decimal h3 @ ''.'' @ decimal h4,
              port = int p1 * 256 + int p2\<rparr>"
    unfolding getPasvPort_def ex by (simp add: ports dots_decimal)
  moreover have "\<forall>r. exec RE_PASV (rtext r) = None \<longrightarrow> pasvReply None r = Inl badPassive"
    by (simp add: pasvReply_def getPasvPort_def)
  ultimately show ?thesis by simp
qed



lemma decimal_examples:
  "decimal 127 = ''127''" "decimal 0 = ''0''" "decimal (Suc 0) = ''1''" "decimal 10 = ''10''"
  "decimal 20 = ''20''"
  by code_simp+

lemma no_group: "exec RE_PASV ''227 Entering Passive Mode'' = None"
  by code_simp

theorem pasv_round_trip_witness:
  "getPasvPort ''227 Entering Passive Mode (127,0,0,1,10,20)''
     = Some \<lparr>host = ''127.0.0.1'', port = 2580\<rparr>
   \<and> exec RE_PASV (rtext (reply 227 ''227 Entering Passive Mode'')) = None
   \<and> pasvReply None (reply 227 ''227 Entering Passive Mode'') = Inl badPassive"
proof -
  have pre: "CHR '','' \<notin> set ''227 Entering Passive Mode (''"
    "''227 Entering Passive Mode ('' = [] \<or> \<not> pasvChar (last ''227 Entering Passive Mode ('')"
    and post: "'')'' = [] \<or> \<not> pasvChar (hd '')'')"
    by (simp_all add: pasvChar_def isDigit_def)
  have n: "exec RE_PASV (rtext (reply 227 ''227 Entering Passive Mode'')) = None"
    by (simp add: reply_def no_group)
  from pasv_round_trip[of 127 0 0 1 10 20 "''227 Entering Passive Mode (''" "'')''", OF _ _ _ _ _ _ pre post] n
  show ?thesis
    by (simp add: decimal_examples)
qed

section \<open>The reply to \<open>feat\<close>\<close>

lemma CR_LF [simp]: "CR \<noteq> LF" "LF \<noteq> CR"
  by (simp_all add: CR_def LF_def)

lemma splitNewline_nonempty: "splitNewline s \<noteq> []"
  by (induction s rule: splitNewline.induct) (auto split: list.splits)

lemma splitNewline_Cons:
  "splitNewline (c # cs) =
     (if c = CR \<and> take 1 cs = [LF] then [] # splitNewline (tl cs)
      else if c = LF then [] # splitNewline cs
      else (case splitNewline cs of [] \<Rightarrow> [[c]] | l # ls \<Rightarrow> (c # l) # ls))"
  by (cases cs) auto

lemma split_plain:
  assumes "LF \<notin> set l" and "CR \<notin> set l"
  shows "splitNewline l = [l]"
    and "splitNewline (l @ LF # rest) = l # splitNewline rest"
    and "splitNewline (l @ CR # LF # rest) = l # splitNewline rest"
  using assms by (induction l) (auto simp: splitNewline_Cons)

lemma split_join:
  assumes "ls \<noteq> []" and "\<forall>l\<in>set ls. LF \<notin> set l \<and> CR \<notin> set l"
    and "sep = [LF] \<or> sep = [CR, LF]"
  shows "splitNewline (join sep ls) = ls"
  using assms
proof (induction sep ls rule: join.induct)
  case (1 sep)
  then show ?case by simp
next
  case (2 sep x)
  then show ?case by (simp add: split_plain)
next
  case (3 sep x y ys)
  then have "splitNewline (join sep (y # ys)) = y # ys" by simp
  with 3 show ?case by (auto simp: split_plain)
qed

lemma commandLine_syst: "commandLine [''syst''] = ''syst''"
  by (simp add: commandLine_def trim_def isSpace_def)

lemma enqueue_authCommand:
  assumes "writable s" and "authCommand (commandLine xs)"
  shows "runCmd xs cb s = nextCmd (push \<lparr>action = commandLine xs, callback = cb\<rparr> s)"
  using assms
  by (cases xs) (simp_all add: runCmd.simps execute.simps runCommand.simps commandLine_def)

text \<open>
  Claim C7. The text of the reply is given by its lines (no line holds a line feed or a
  carriage return), joined by line feeds or by carriage return and line feed. The features
  parsed from it are the lines without the first and the last, each trimmed and in lower
  case, the empty ones left out. The callback of \<open>feat\<close> stores them in \<open>features\<close>;
  when \<open>feat\<close> fails it stores the empty list; both times it goes on with \<open>syst\<close>.
\<close>

theorem feat_reply_features:
  assumes "ls \<noteq> []" and "\<forall>l\<in>set ls. LF \<notin> set l \<and> CR \<notin> set l"
    and "sep = [LF] \<or> sep = [CR, LF]"
    and "writable s"
  shows "parseFeats (join sep ls)
           = filter (\<lambda>feat. feat \<noteq> []) (map (\<lambda>l. toLowerCase (trim l)) (butlast (tl ls)))
       \<and> apply_cb (FeatCb k) None (Resp r) s
           = nextCmd (push \<lparr>action = ''syst'', callback = SystCb k\<rparr>
                        (s\<lparr>features := Some (parseFeats (rtext r))\<rparr>))
       \<and> apply_cb (FeatCb k) (Some e) a s
           = nextCmd (push \<lparr>action = ''syst'', callback = SystCb k\<rparr> (s\<lparr>features := Some []\<rparr>))"
proof -
  have "parseFeats (join sep ls)
      = filter (\<lambda>feat. feat \<noteq> []) (map (\<lambda>l. toLowerCase (trim l)) (butlast (tl ls)))"
    unfolding parseFeats_def slice_1_m1_def split_join[OF assms(1-3)] ..
  moreover have "\<And>cb s'. writable s' \<Longrightarrow>
      runCmd [''syst''] cb s' = nextCmd (push \<lparr>action = ''syst'', callback = cb\<rparr> s')"
    using enqueue_authCommand[OF _ authCommand_line(1)] by (simp add: commandLine_syst)
  ultimately show ?thesis
    using assms(4) by simp
qed


lemma nextCmd_more [simp]:
  "features (nextCmd s) = features s"
  "authenticated (nextCmd s) = authenticated s"
  "authenticating (nextCmd s) = authenticating s"
  "writable (nextCmd s) = writable s"
  "user (nextCmd s) = user s"
  "pass (nextCmd s) = pass s"
  "system (nextCmd s) = system s"
  "xferType (nextCmd s) = xferType s"
  "firstAction (nextCmd s) = firstAction s"
  by (simp_all add: nextCmd_def send_def split: list.splits)

lemma feats_example:
  "filter (\<lambda>feat. feat \<noteq> [])
     (map (\<lambda>l. toLowerCase (trim l)) (butlast (tl [''211-Features:'', '' UTF8'', '' EPSV'', ''211 End''])))
   = [''utf8'', ''epsv'']"
  by code_simp

theorem feat_reply_features_witness:
  "parseFeats (join [LF] [''211-Features:'', '' UTF8'', '' EPSV'', ''211 End'']) = [''utf8'', ''epsv'']
   \<and> features (apply_cb (FeatCb NOOP) None
        (Resp (reply 211 (join [LF] [''211-Features:'', '' UTF8'', '' EPSV'', ''211 End''])))
        (newFTP [] [])) = Some [''utf8'', ''epsv'']
   \<and> features (apply_cb (FeatCb NOOP) (Some \<lparr>message = ''500 Unknown command'', ecode = Some 500\<rparr>)
        (Resp (reply 500 ''500 Unknown command'')) (newFTP [] [])) = Some []"
proof -
  let ?ls = "[''211-Features:'', '' UTF8'', '' EPSV'', ''211 End'']"
  let ?r = "reply 211 (join [LF] ?ls)"
  let ?e = "\<lparr>message = ''500 Unknown command'', ecode = Some 500\<rparr>"
  have h: "?ls \<noteq> []" "\<forall>l\<in>set ?ls. LF \<notin> set l \<and> CR \<notin> set l"
    "[LF] = [LF] \<or> [LF] = [CR, LF]" "writable (newFTP [] [])"
    by (simp_all add: LF_def CR_def newFTP_def)
  note t = feat_reply_features[OF h, of NOOP ?r ?e "Resp (reply 500 ''500 Unknown command'')"]
  have a: "parseFeats (join [LF] ?ls) = [''utf8'', ''epsv'']"
    by (rule trans[OF conjunct1[OF t] feats_example])
  have rt: "rtext ?r = join [LF] ?ls"
    by (simp only: reply_def response.simps)
  have b: "features (apply_cb (FeatCb NOOP) None (Resp ?r) (newFTP [] [])) = Some [''utf8'', ''epsv'']"
    unfolding conjunct1[OF conjunct2[OF t]] rt a by (simp add: push_def)
  have c: "features (apply_cb (FeatCb NOOP) (Some ?e) (Resp (reply 500 ''500 Unknown command''))
      (newFTP [] [])) = Some []"
    unfolding conjunct2[OF conjunct2[OF t]] by (simp add: push_def)
  from a b c show ?thesis by (intro conjI)
qed

section \<open>How often a function of the caller is called\<close>

text \<open>
  \<open>occ n k\<close> counts the places where the caller's function \<open>n\<close> stands in the
  closure \<open>k\<close>; \<open>pending n s\<close> counts them in the queue and in the connect listener,
  and \<open>calls n s\<close> counts the calls of \<open>n\<close> so far.
\<close>

fun occ :: "nat \<Rightarrow> callback \<Rightarrow> nat" where
  "occ n NOOP = 0"
| "occ n (UserFn m e) = (if m = n then 1 else 0)"
| "occ n (EnqueueCb a cb) = occ n cb"
| "occ n (AuthAfterFeatures a cb) = occ n cb"
| "occ n (FeatCb k) = occ n k"
| "occ n (SystCb k) = occ n k"
| "occ n (AuthUserCb u p k) = occ n k"
| "occ n (AuthPassCb u p k) = occ n k"
| "occ n (AuthTypeCb k r) = occ n k"
| "occ n (SetTypeCb t k) = occ n k"
| "occ n (RenameCb to k) = occ n k"

definition pending :: "nat \<Rightarrow> session \<Rightarrow> nat" where
  "pending n s =
     sum_list (map (\<lambda>cmd. occ n (callback cmd)) (commandQueue s))
     + (case firstAction s of None \<Rightarrow> 0 | Some (a, cb) \<Rightarrow> occ n cb)"

definition calls :: "nat \<Rightarrow> session \<Rightarrow> nat" where
  "calls n s = length (filter (\<lambda>c. fst c = n) (invoked s))"

text \<open>
  From \<open>s\<close> to \<open>s'\<close> the calls of \<open>n\<close> did not become fewer, and what is pending and
  called together grew by at most \<open>extra\<close>.
\<close>

definition within :: "nat \<Rightarrow> nat \<Rightarrow> session \<Rightarrow> session \<Rightarrow> bool" where
  "within n extra s s' \<longleftrightarrow>
     calls n s \<le> calls n s' \<and> pending n s' + calls n s' \<le> pending n s + calls n s + extra"

lemma pending_nextCmd [simp]: "pending n (nextCmd s) = pending n s"
  by (simp add: pending_def)

lemma calls_nextCmd [simp]: "calls n (nextCmd s) = calls n s"
  by (simp add: calls_def)

lemma within_nextCmd [simp]: "within n x s (nextCmd s') = within n x s s'"
  by (simp add: within_def)

lemma within_trans:
  "within n x s s' \<Longrightarrow> within n y s' s'' \<Longrightarrow> within n (x + y) s s''"
  by (auto simp: within_def)

lemma within_refl: "within n 0 s s"
  by (simp add: within_def)

lemma within_mono: "within n x s s' \<Longrightarrow> x \<le> y \<Longrightarrow> within n y s s'"
  by (auto simp: within_def)

lemma within_push: "within n (occ n cb) s (push \<lparr>action = a, callback = cb\<rparr> s)"
  by (simp add: within_def pending_def calls_def push_def)

lemma within_frame:
  assumes "commandQueue s' = commandQueue s" "firstAction s' = firstAction s" "invoked s' = invoked s"
  shows "within n x s' t = within n x s t"
  using assms by (simp add: within_def pending_def calls_def)

lemma within_upd [simp]:
  "within n x (s\<lparr>authenticating := b\<rparr>) t = within n x s t"
  "within n x (s\<lparr>authenticated := b\<rparr>) t = within n x s t"
  "within n x (s\<lparr>features := f\<rparr>) t = within n x s t"
  "within n x (s\<lparr>system := y\<rparr>) t = within n x s t"
  "within n x (s\<lparr>xferType := y\<rparr>) t = within n x s t"
  "within n x (s\<lparr>user := v\<rparr>) t = within n x s t"
  "within n x (s\<lparr>pass := v\<rparr>) t = within n x s t"
  "within n x (s\<lparr>inProgress := b\<rparr>) t = within n x s t"
  "within n x (s\<lparr>ignoreCmdCode := c\<rparr>) t = within n x s t"
  "within n x t (s\<lparr>inProgress := b\<rparr>) = within n x t s"
  "within n x t (s\<lparr>ignoreCmdCode := c\<rparr>) = within n x t s"
  "within n x t (s\<lparr>authenticating := b\<rparr>) = within n x t s"
  by (simp_all add: within_def pending_def calls_def)

lemma within_same [simp]: "within n x s s"
  by (simp add: within_def)

lemma within_weaken: "within n 0 s t \<Longrightarrow> within n x s t"
  by (simp add: within_def)

lemma within_createSocket:
  "within n (occ n cb) s (createSocket (Some (act, cb)) (s\<lparr>authenticated := False\<rparr>))"
  by (simp add: within_def pending_def calls_def createSocket_def)

lemma within_UserFn: "within n (occ n (UserFn m x)) s (s\<lparr>invoked := invoked s @ [(m, e, a)]\<rparr>)"
  by (simp add: within_def pending_def calls_def)

lemma within_push_next:
  "within n (occ n cb) s (nextCmd (push \<lparr>action = a, callback = cb\<rparr> s))"
  by (simp add: within_push)

lemma within_balance:
  shows "within n (occ n k) s (apply_cb k e a s)"
    and "within n (occ n cb) s (runCmd xs cb s)"
    and "within n (occ n cb1) s (execute act1 cb1 s)"
    and "within n (occ n cb2) s (runCommand act2 cb2 s)"
    and "within n (occ n cb3) s (getFeatures cb3 s)"
    and "within n (occ n cb4) s (auth u p cb4 s)"
proof (induction k e a s and xs cb s and act1 cb1 s and act2 cb2 s and cb3 s and u p cb4 s
    rule: apply_cb_runCmd_execute_runCommand_getFeatures_auth.induct)
  case 1
  then show ?case
    by simp
next
  case 2
  then show ?case
    by (simp add: within_def pending_def calls_def)
next
  case 3
  then show ?case
    by (simp add: within_push)
next
  case 4
  then show ?case
    by simp
next
  case 5
  then show ?case
    by simp
next
  case 6
  then show ?case
    by simp
next
  case "7_1"
  then show ?case
    by simp
next
  case "7_2"
  then show ?case
    by simp
next
  case 8
  then show ?case
    by simp
next
  case 9
  then show ?case
    by (simp add: Let_def split: if_splits)
next
  case "10_1"
  then show ?case
    by simp
next
  case "10_2"
  then show ?case
    by simp
next
  case 11
  then show ?case
    by simp
next
  case 12
  then show ?case
    by (simp split: if_splits)
next
  case "13_1"
  then show ?case
    by simp
next
  case "13_2"
  then show ?case
    by simp
next
  case 14
  then show ?case
    by simp
next
  case 15
  then show ?case
    by (auto intro: within_weaken split: if_splits)
next
  case "16_1"
  then show ?case
    by simp
next
  case "16_2"
  then show ?case
    by simp
next
  case 17
  then show ?case
    by simp
next
  case 18
  then show ?case
    by simp
next
  case 19
  then show ?case
    by simp
next
  case 20
  then show ?case
    by simp
next
  case 21
  then show ?case
    by simp
next
  case 22
  then show ?case
    by (subst runCmd.simps) simp
next
  case 23
  then show ?case
    by (subst runCmd.simps) simp
next
  case 24
  then show ?case
    by (subst execute.simps) (simp add: within_createSocket)
next
  case 25
  then show ?case
    by (subst runCommand.simps) (simp add: within_push)
next
  case 26
  then show ?case
    by (subst getFeatures.simps) (simp split: option.splits)
next
  case 27
  then show ?case
    by (subst auth.simps) (simp add: Let_def)
qed

section \<open>Events\<close>

text \<open>
  What can happen to a session: a reply arrives, the caller calls a method and hands it a
  callback, the socket that \<open>execute\<close> has opened connects, or the control socket stops
  being writable.
\<close>

datatype operation =
    RawOp "string list"
  | ExecuteOp string
  | AuthOp string string
  | GetFeaturesOp
  | SetTypeOp string
  | RenameOp string string

fun perform :: "operation \<Rightarrow> callback \<Rightarrow> session \<Rightarrow> session" where
  "perform (RawOp xs) cb s = runCmd xs cb s"
| "perform (ExecuteOp act) cb s = execute act cb s"
| "perform (AuthOp u p) cb s = auth u p cb s"
| "perform GetFeaturesOp cb s = getFeatures cb s"
| "perform (SetTypeOp t) cb s = setType t cb s"
| "perform (RenameOp from to) cb s = rename from to cb s"

datatype event = Reply response | Do operation callback | Connect | Closed

fun step :: "event \<Rightarrow> session \<Rightarrow> session" where
  "step (Reply r) s = parseResponse r s"
| "step (Do op cb) s = perform op cb s"
| "step Connect s =
     (case firstAction s of
        None \<Rightarrow> s
      | Some (act, cb) \<Rightarrow> runCommand act cb (s\<lparr>firstAction := None\<rparr>))"
| "step Closed s = s\<lparr>writable := False\<rparr>"

definition run :: "event list \<Rightarrow> session \<Rightarrow> session" where
  "run evs s = foldl (\<lambda>s ev. step ev s) s evs"

text \<open>The event hands the function \<open>n\<close> of the caller to the session.\<close>

fun mentions :: "nat \<Rightarrow> event \<Rightarrow> bool" where
  "mentions n (Do op cb) = (0 < occ n cb)"
| "mentions n _ = False"

lemma within_parse: "within n (occ n (callback cmd)) s (parse r cmd s)"
  using within_balance(1)[of n "callback cmd" s "replyError r" "Resp r"]
  by (simp add: parse_def)

lemma within_armIgnore [simp]:
  "within n x (armIgnore k s) t = within n x s t"
  by (simp add: armIgnore_def split: option.splits)

lemma within_pop:
  assumes "commandQueue s = cmd # rest"
    and "within n (occ n (callback cmd)) (s\<lparr>commandQueue := rest\<rparr>) t"
  shows "within n 0 s t"
  using assms by (simp add: within_def pending_def calls_def)

lemma armIgnore_queue [simp]:
  "(armIgnore k s)\<lparr>commandQueue := q\<rparr> = armIgnore k (s\<lparr>commandQueue := q\<rparr>)"
  "commandQueue (armIgnore k s) = commandQueue s"
  by (simp_all add: armIgnore_def split: option.splits)

lemma within_parseResponse: "within n 0 s (parseResponse r s)"
proof (cases "commandQueue s")
  case Nil
  then show ?thesis by (simp add: parseResponse_def)
next
  case (Cons cmd rest)
  have a: "within n 0 s (parse r cmd (s\<lparr>commandQueue := rest\<rparr>))"
    by (rule within_pop[OF Cons within_parse])
  have b: "within n 0 s (parse r cmd (armIgnore (callback cmd) (s\<lparr>commandQueue := rest\<rparr>)))"
  proof (rule within_pop[OF Cons])
    have "within n (occ n (callback cmd)) (armIgnore (callback cmd) (s\<lparr>commandQueue := rest\<rparr>))
        (parse r cmd (armIgnore (callback cmd) (s\<lparr>commandQueue := rest\<rparr>)))"
      by (rule within_parse)
    then show "within n (occ n (callback cmd)) (s\<lparr>commandQueue := rest\<rparr>)
        (parse r cmd (armIgnore (callback cmd) (s\<lparr>commandQueue := rest\<rparr>)))"
      by simp
  qed
  have c: "within n 0 s (armIgnore (callback cmd) s\<lparr>ignoreCmdCode := None\<rparr>)"
    using within_armIgnore[of n 0 "callback cmd" s "armIgnore (callback cmd) s"] by simp
  show ?thesis
    using Cons a b c by (simp add: parseResponse_def Let_def)
qed

lemma within_perform: "within n (occ n cb) s (perform op cb s)"
  by (cases op) (simp_all add: within_balance setType_def rename_def
      within_balance(2)[of n "SetTypeCb t cb" for t, simplified]
      within_balance(2)[of n "RenameCb t cb" for t, simplified])

lemma within_step: "\<not> mentions n ev \<Longrightarrow> within n 0 s (step ev s)"
proof (cases ev)
  case (Reply r)
  then show ?thesis by (simp add: within_parseResponse)
next
  case (Do op cb)
  assume "\<not> mentions n ev"
  with Do within_perform[of n cb s op] show ?thesis by simp
next
  case Connect
  show ?thesis
  proof (cases "firstAction s")
    case None
    with Connect show ?thesis by simp
  next
    case (Some ac)
    obtain act cb where ac: "ac = (act, cb)" by (cases ac)
    have "within n (occ n cb) (s\<lparr>firstAction := None\<rparr>) (runCommand act cb (s\<lparr>firstAction := None\<rparr>))"
      by (rule within_balance(4))
    then have "within n 0 s (runCommand act cb (s\<lparr>firstAction := None\<rparr>))"
      using Some ac by (simp add: within_def pending_def calls_def)
    with Connect Some ac show ?thesis by simp
  qed
next
  case Closed
  then show ?thesis by (simp add: within_def pending_def calls_def)
qed

lemma within_run:
  "\<forall>ev\<in>set evs. \<not> mentions n ev \<Longrightarrow> within n 0 s (run evs s)"
proof (induction evs arbitrary: s)
  case Nil
  then show ?case by (simp add: run_def)
next
  case (Cons ev evs)
  have "within n 0 s (step ev s)" using Cons.prems by (simp add: within_step)
  moreover have "within n 0 (step ev s) (run evs (step ev s))" using Cons by simp
  ultimately have "within n (0 + 0) s (run evs (step ev s))" by (rule within_trans)
  then show ?case by (simp add: run_def)
qed


section \<open>The implicit chain\<close>

text \<open>
  The session of a caller who asks for \<open>pwd\<close> before anything else, after the replies to
  \<open>feat\<close> and \<open>syst\<close> (the command \<open>user\<close> is in flight), and after the reply 331 to
  \<open>user\<close> (the command \<open>pass\<close> is in flight).
\<close>

definition featReply :: response where
  "featReply = reply 211 (join [LF] [''211-Features:'', '' UTF8'', '' EPSV'', ''211 End''])"

definition awaitingUser :: session where
  "awaitingUser =
     run [Do (RawOp [''pwd'']) (UserFn 0 None), Reply featReply, Reply (reply 215 ''215 UNIX Type: L8'')]
       (newFTP [] [])"


lemma awaitingUser_queue:
  "commandQueue awaitingUser =
     [\<lparr>action = ''user anonymous'',
       callback = AuthUserCb ''anonymous'' ''@anonymous'' (EnqueueCb ''pwd'' (UserFn 0 None))\<rparr>]"
  by code_simp

lemma awaitingUser_wire:
  "wire awaitingUser = [''feat'' @ CRLF, ''syst'' @ CRLF, ''user anonymous'' @ CRLF]"
  by code_simp


lemma paired_reply:
  assumes "commandQueue s = cmd # rest" and "\<not> isMark r" and "code r \<noteq> 220"
    and "ignoreCmdCode s \<noteq> Some (code r)"
  shows "parseResponse r s = parse r cmd (s\<lparr>commandQueue := rest\<rparr>)"
  using assms by (simp add: parseResponse_def)

lemma push_fields [simp]:
  "commandQueue (push cmd s) = commandQueue s @ [cmd]"
  "invoked (push cmd s) = invoked s"
  "authenticating (push cmd s) = authenticating s"
  "authenticated (push cmd s) = authenticated s"
  "writable (push cmd s) = writable s"
  "features (push cmd s) = features s"
  "firstAction (push cmd s) = firstAction s"
  by (simp_all add: push_def)

text \<open>
  Claim C5, as the code has it. The command \<open>user\<close> of the implicit chain is at the head of
  the queue and its reply is paired with it. With the code 230, 331 or 332 the command
  \<open>pass\<close> is put into the queue (with 230 as well as with 331 and 332). With any other
  code \<open>authenticating\<close> is cleared and the callback of \<open>auth\<close> is called with the error of
  the reply; that callback looks at no argument and puts the original command into the queue.
  No function of the caller is called either way.
\<close>

theorem user_reply_in_chain:
  assumes q: "commandQueue s = \<lparr>action = a, callback = AuthUserCb u p (EnqueueCb act cb)\<rparr> # rest"
    and r: "parsed r" "\<not> isMark r" "code r \<noteq> 220" "ignoreCmdCode s \<noteq> Some (code r)"
    and w: "writable s"
  shows "(code r \<in> {230, 331, 332} \<longrightarrow>
            commandQueue (parseResponse r s)
              = rest @ [\<lparr>action = commandLine [''pass'', p],
                         callback = AuthPassCb u p (EnqueueCb act cb)\<rparr>]
            \<and> authenticating (parseResponse r s) = authenticating s)
       \<and> (code r \<notin> {230, 331, 332} \<longrightarrow>
            parseResponse r s
              = nextCmd ((apply_cb (EnqueueCb act cb) (replyError r) Undefined
                           (s\<lparr>commandQueue := rest, authenticating := False\<rparr>))\<lparr>inProgress := False\<rparr>)
            \<and> commandQueue (parseResponse r s) = rest @ [\<lparr>action = act, callback = cb\<rparr>]
            \<and> \<not> authenticating (parseResponse r s))
       \<and> invoked (parseResponse r s) = invoked s"
proof -
  let ?s1 = "s\<lparr>commandQueue := rest\<rparr>"
  have p: "parseResponse r s
      = nextCmd ((apply_cb (AuthUserCb u p (EnqueueCb act cb)) (replyError r) (Resp r) ?s1)\<lparr>inProgress := False\<rparr>)"
    using paired_reply[OF q r(2-4)] by (simp add: parse_def)
  have pass: "runCmd [''pass'', p] (AuthPassCb u p (EnqueueCb act cb)) ?s1
      = nextCmd (push \<lparr>action = commandLine [''pass'', p],
                        callback = AuthPassCb u p (EnqueueCb act cb)\<rparr> ?s1)"
    using w by (intro enqueue_authCommand authCommand_line) simp
  show ?thesis
  proof (cases "code r \<in> {230, 331, 332}")
    case True
    then have "\<not> isError r" using r(1) by (auto simp: parsed_def)
    then have e: "replyError r = None" by (simp add: replyError_def)
    have "parseResponse r s
        = nextCmd ((nextCmd (push \<lparr>action = commandLine [''pass'', p],
                        callback = AuthPassCb u p (EnqueueCb act cb)\<rparr> ?s1))\<lparr>inProgress := False\<rparr>)"
      using True pass unfolding p e by simp
    then show ?thesis using True by simp
  next
    case False
    have "apply_cb (AuthUserCb u p (EnqueueCb act cb)) (replyError r) (Resp r) ?s1
        = apply_cb (EnqueueCb act cb) (replyError r) Undefined (?s1\<lparr>authenticating := False\<rparr>)"
      using False by (cases "replyError r") simp_all
    then have "parseResponse r s
        = nextCmd ((apply_cb (EnqueueCb act cb) (replyError r) Undefined
                           (s\<lparr>commandQueue := rest, authenticating := False\<rparr>))\<lparr>inProgress := False\<rparr>)"
      unfolding p by simp
    then show ?thesis using False by simp
  qed
qed

lemma awaitingUser_facts:
  "writable awaitingUser" "ignoreCmdCode awaitingUser = None" "invoked awaitingUser = []"
  by code_simp+

theorem user_reply_in_chain_witness:
  "commandQueue (parseResponse (reply 331 ''331 Password required'') awaitingUser)
     = [\<lparr>action = ''pass @anonymous'',
         callback = AuthPassCb ''anonymous'' ''@anonymous'' (EnqueueCb ''pwd'' (UserFn 0 None))\<rparr>]
   \<and> commandQueue (parseResponse (reply 530 ''530 Login incorrect'') awaitingUser)
     = [\<lparr>action = ''pwd'', callback = UserFn 0 None\<rparr>]
   \<and> \<not> authenticating (parseResponse (reply 530 ''530 Login incorrect'') awaitingUser)
   \<and> invoked (parseResponse (reply 530 ''530 Login incorrect'') awaitingUser) = []"
proof -
  have q: "commandQueue awaitingUser =
     \<lparr>action = ''user anonymous'',
       callback = AuthUserCb ''anonymous'' ''@anonymous'' (EnqueueCb ''pwd'' (UserFn 0 None))\<rparr> # []"
    by (rule awaitingUser_queue)
  have l: "commandLine [''pass'', ''@anonymous''] = ''pass @anonymous''"
    by code_simp
  have r1: "\<not> isMark (reply 331 ''331 Password required'')"
    "code (reply 331 ''331 Password required'') \<noteq> 220"
    "ignoreCmdCode awaitingUser \<noteq> Some (code (reply 331 ''331 Password required''))"
    and r2: "\<not> isMark (reply 530 ''530 Login incorrect'')"
    "code (reply 530 ''530 Login incorrect'') \<noteq> 220"
    "ignoreCmdCode awaitingUser \<noteq> Some (code (reply 530 ''530 Login incorrect''))"
    by (simp_all add: reply_def awaitingUser_facts)
  have c: "code (reply 331 ''331 Password required'') \<in> {230, 331, 332}"
    "code (reply 530 ''530 Login incorrect'') \<notin> {230, 331, 332}"
    by (simp_all add: reply_def)
  from user_reply_in_chain[OF q parsed_reply r1 awaitingUser_facts(1)]
    user_reply_in_chain[OF q parsed_reply r2 awaitingUser_facts(1)] c
  show ?thesis
    by (simp add: l awaitingUser_facts reply_def)
qed

text \<open>
  Claim C5 as it is written fails. After the reply 530 to \<open>user\<close> the original command
  \<open>pwd\<close> is written to the socket and no callback has been called; after the reply
  230 to \<open>user\<close> the command \<open>pass\<close> is written.
\<close>

theorem user_reply_counterexample:
  "wire (parseResponse (reply 530 ''530 Login incorrect'') awaitingUser)
     = wire awaitingUser @ [''pwd'' @ CRLF]
   \<and> invoked (parseResponse (reply 530 ''530 Login incorrect'') awaitingUser) = []
   \<and> wire (parseResponse (reply 230 ''230 Logged in'') awaitingUser)
     = wire awaitingUser @ [''pass @anonymous'' @ CRLF]"
  by code_simp












section \<open>\<open>put\<close> from a local path\<close>

text \<open>
  What \<open>fs.stat\<close> hands to its callback: an error with its \<open>code\<close>, or none, and the
  \<open>stats\<close> object, or none (the runtime passes no \<open>stats\<close> along with an error).
\<close>

record stat_error =
  errno :: string

record stats =
  isDirectory :: bool
  st_size :: nat

text \<open>
  What the callback of \<open>fs.stat\<close> in \<open>put\<close> does: it calls \<open>callback\<close> with an error,
  or goes on to \<open>putReadable\<close> with a total size, or a \<open>TypeError\<close> is thrown because a
  property of \<open>undefined\<close> is read.
\<close>

datatype put_step =
    CallbackError string
  | PutReadable nat
  | TypeError

definition putStat :: "stat_error option \<Rightarrow> stats option \<Rightarrow> put_step" where
  "putStat error st =
     (if (case error of None \<Rightarrow> False | Some e \<Rightarrow> errno e = ''ENOENT'')
      then CallbackError ''Local file doesn't exist.''
      else
        (case st of
           None \<Rightarrow> TypeError
         | Some x \<Rightarrow>
             if isDirectory x then CallbackError ''Local path cannot be a directory''
             else (case error of
                     Some e \<Rightarrow> PutReadable 0
                   | None \<Rightarrow> PutReadable (st_size x))))"

text \<open>
  Claim C10 does not hold of the code. A \<open>stat\<close> that fails with \<open>EACCES\<close> passes the
  test for \<open>ENOENT\<close>, and \<open>stats.isDirectory()\<close> is then read from no \<open>stats\<close> object.
\<close>

theorem put_stat_eacces:
  "putStat (Some \<lparr>errno = ''EACCES''\<rparr>) None = TypeError"
  by (simp add: putStat_def)

section \<open>Data connections\<close>

text \<open>
  The methods that open a data connection: \<open>getPasvSocket\<close>, \<open>list\<close>, \<open>getGetSocket\<close>,
  \<open>get\<close>, \<open>getPutSocket\<close>, \<open>put\<close> and \<open>ls\<close>, with \<open>once\<close> of lib/once.js. They stand
  above the command queue: what they hand to \<open>execute\<close> is, for the queue, a function of its
  caller.

  An error as these methods see it: its message, its property \<open>code\<close> (none, a number as in
  the error of a reply, or a name as in \<open>ENOENT\<close>), and the property \<open>msg\<close> that
  \<open>getGetSocket\<close> sets.
\<close>

datatype errcode = NoCode | Num int | Str string

record failure =
  fmessage :: string
  fcode :: errcode
  fmsg :: "string option"

definition Error :: "string \<Rightarrow> failure" where
  "Error m = \<lparr>fmessage = m, fcode = NoCode, fmsg = None\<rparr>"

text \<open>
  The function values of these methods, one constructor for each function expression, with
  the variables that the closure captures: a callback, a path, the number of a data socket,
  the number of a variable \<open>listing\<close>. \<open>User n\<close> is a function supplied by the caller, known
  by a number; calling it is recorded. \<open>Once c f\<close> is the function \<open>cb\<close> that \<open>once(f)\<close>
  returns; \<open>c\<close> numbers it, and its property \<open>called\<close> is kept in the state.
\<close>

datatype closure =
    Nop
  | User nat
  | Once nat closure
  | PasvCb closure
  | ClearPasvCb
  | ListSocketCb string nat closure
  | ListDataCb nat
  | ListCloseCb nat closure
  | ListCmdCb closure
  | TimeoutCb nat closure
  | ProgressCb
  | GetFileCb string string closure
  | GetSocketCb string closure
  | GetSockErrorCb nat closure
  | GetCmdCb "nat option" closure
  | PutStatCb string string closure
  | PutBufferCb
  | PutPipeCb
  | FeedbackCb closure closure
  | PutSocketCb string closure closure
  | PutCmdCb closure closure nat
  | LsEntriesCb closure
  | LsParsedCb closure
  | LsStatCb string closure

text \<open>
  What a function is called with besides the error: nothing, a reply, a data socket, a text
  (the listing, or a chunk of data), the entries of a parsed listing, or what \<open>fs.stat\<close>
  reports (no \<open>stats\<close> when it failed).
\<close>

datatype payload =
    NoValue
  | Answer response
  | Socket nat
  | Text string
  | Files "string list"
  | FileStats "stats option"

text \<open>
  A function that has been handed over to be called later: a listener on a data socket or
  on a stream, the callback of \<open>fs.stat\<close> or of the listing parser, or the callback of a
  command. \<open>oneShot\<close> tells that it is called once at most: a listener added with
  \<open>socket.once\<close>, and the callback of \<open>fs.stat\<close>, of the listing parser and of the
  command \<open>stat\<close> of \<open>ls\<close> (lemma \<open>within_balance\<close>: the queue calls a function as
  often as it was handed over, at most). \<open>live\<close> is cleared when such a function has been
  called. Every other function may be called again and again.
\<close>

record listener =
  oneShot :: bool
  live :: bool
  hfn :: closure

text \<open>
  The FTP object with what the data methods keep: \<open>ftp\<close> is the fields of the command
  queue; \<open>cells\<close> holds, for each function made by \<open>once\<close>, its property \<open>called\<close> and
  the function it wraps; \<open>handlers\<close> the functions handed over to be called later;
  \<open>buffers\<close> the variables \<open>listing\<close> of the calls of \<open>list\<close>; \<open>sockets\<close> the options
  each data socket was opened with; \<open>answered\<close> the calls of the functions of the caller,
  in order.
\<close>

record client =
  ftp :: session
  useList :: bool
  pasvSocket :: "nat option"
  cells :: "(bool \<times> closure) list"
  handlers :: "listener list"
  buffers :: "string list"
  sockets :: "pasv list"
  answered :: "(nat \<times> failure option \<times> payload) list"

text \<open>
  \<open>once(fn)\<close>: \<open>once fn t\<close> is the function it returns and \<open>made fn t\<close> the state that
  holds it, not yet called. (The value that the function returns is used nowhere in ftp.js
  and is left out.)
\<close>

definition once :: "closure \<Rightarrow> client \<Rightarrow> closure" where
  "once fn t = Once (length (cells t)) fn"

definition made :: "closure \<Rightarrow> client \<Rightarrow> client" where
  "made fn t = t\<lparr>cells := cells t @ [(False, fn)]\<rparr>"

definition isCalled :: "nat \<Rightarrow> client \<Rightarrow> bool" where
  "isCalled c t \<longleftrightarrow> c < length (cells t) \<and> fst (cells t ! c)"

definition markCalled :: "nat \<Rightarrow> client \<Rightarrow> client" where
  "markCalled c t = t\<lparr>cells := (cells t)[c := (True, snd (cells t ! c))]\<rparr>"

text \<open>
  \<open>emitter.on(event, k)\<close> and \<open>emitter.once(event, k)\<close>, and the calls of \<open>fs.stat\<close> and
  of the listing parser with the callback \<open>k\<close>.
\<close>

definition listen :: "bool \<Rightarrow> closure \<Rightarrow> client \<Rightarrow> client" where
  "listen b k t = t\<lparr>handlers := handlers t @ [\<lparr>oneShot = b, live = True, hfn = k\<rparr>]\<rparr>"

text \<open>
  The property \<open>expectsMark\<close> of the functions that are given to \<open>execute\<close>:
  \<open>cmdCallback\<close> of \<open>list\<close> and of \<open>getGetSocket\<close>, and \<open>putCallback\<close>.
\<close>

fun closureMarks :: "closure \<Rightarrow> expects option" where
  "closureMarks (ListCmdCb w) = Some expectedMarks"
| "closureMarks (GetCmdCb so w) = Some expectedMarks"
| "closureMarks (Once c (PutCmdCb fb wd so)) = Some expectedMarks"
| "closureMarks _ = None"

text \<open>
  \<open>self.execute(action, k)\<close> and \<open>self.raw(..., k)\<close>: the queue is given the command with
  the function \<open>k\<close>, which is for the queue the function of a caller; its number is the
  place of \<open>k\<close> in \<open>handlers\<close>. Of the function given to \<open>execute\<close> nothing is taken for
  granted: it may be called any number of times.
\<close>

definition executeCb :: "string \<Rightarrow> closure \<Rightarrow> client \<Rightarrow> client" where
  "executeCb act k t =
     listen False k
       (t\<lparr>ftp := execute act (UserFn (length (handlers t)) (closureMarks k)) (ftp t)\<rparr>)"

definition rawCb :: "string list \<Rightarrow> closure \<Rightarrow> client \<Rightarrow> client" where
  "rawCb xs k t =
     listen True k
       (t\<lparr>ftp := runCmd xs (UserFn (length (handlers t)) (closureMarks k)) (ftp t)\<rparr>)"

definition buffer :: "nat \<Rightarrow> client \<Rightarrow> string" where
  "buffer b t = (if b < length (buffers t) then buffers t ! b else [])"

definition passiveTimeout :: failure where
  "passiveTimeout = Error ''Passive socket timeout''"

definition noPasvSocket :: failure where
  "noPasvSocket = Error ''Error when retrieving PASV socket''"

definition unexpectedCommand :: "response \<Rightarrow> failure" where
  "unexpectedCommand r = Error (''Unexpected command '' @ rtext r)"

text \<open>\<open>expectedMarks.toString()\<close> is \<open>[object Object]\<close>.\<close>

definition notExpectedMark :: "response \<Rightarrow> failure" where
  "notExpectedMark r = Error (''Expected marks [object Object] instead of: '' @ rtext r)"

definition refusedHint :: "failure \<Rightarrow> failure" where
  "refusedHint err =
     (if fcode err = Str ''ECONNREFUSED''
      then err\<lparr>fmsg := Some ''Probably trying a PASV operation while one is in progress''\<rparr>
      else err)"

text \<open>The error and the \<open>stats\<close> that the callback of \<open>fs.stat\<close> in \<open>put\<close> tests.\<close>

definition statError :: "failure option \<Rightarrow> stat_error option" where
  "statError e =
     map_option (\<lambda>err. \<lparr>errno = (case fcode err of Str c \<Rightarrow> c | _ \<Rightarrow> [])\<rparr>) e"

definition statsOf :: "payload \<Rightarrow> stats option" where
  "statsOf a = (case a of FileStats st \<Rightarrow> st | _ \<Rightarrow> None)"

text \<open>The two tests of the callback of \<open>stat\<close> in \<open>ls\<close>.\<close>

definition lsErrored :: "failure option \<Rightarrow> bool" where
  "lsErrored e = (case e of None \<Rightarrow> False | Some err \<Rightarrow> fcode err = Num 502 \<or> fcode err = Num 500)"

fun contains :: "string \<Rightarrow> string \<Rightarrow> bool" where
  "contains sub [] = (sub = [])"
| "contains sub (c # cs) = (take (length sub) (c # cs) = sub \<or> contains sub cs)"

definition isHummingbird :: "client \<Rightarrow> bool" where
  "isHummingbird t = (case system (ftp t) of None \<Rightarrow> False | Some sy \<Rightarrow> contains ''hummingbird'' sy)"

text \<open>
  \<open>getPasvSocket\<close>, \<open>list\<close>, \<open>getGetSocket\<close>, \<open>getPutSocket\<close> and \<open>putReadable\<close>. Each
  wraps its callback with \<open>once\<close> and hands a function on.
\<close>

definition getPasvSocket :: "closure \<Rightarrow> client \<Rightarrow> client" where
  "getPasvSocket cb t = executeCb ''pasv'' (PasvCb (once cb t)) (made cb t)"

definition list :: "string \<Rightarrow> closure \<Rightarrow> client \<Rightarrow> client" where
  "list path cb t =
     getPasvSocket
       (ListSocketCb path (length (buffers t)) (once cb t))
       (made cb (t\<lparr>buffers := buffers t @ [Nil]\<rparr>))"

definition getGetSocket :: "string \<Rightarrow> closure \<Rightarrow> client \<Rightarrow> client" where
  "getGetSocket path cb t = getPasvSocket (GetSocketCb path (once cb t)) (made cb t)"

text \<open>
  In \<open>getPutSocket\<close> the function \<open>feedback\<close> is made first and \<open>doneCallback\<close> is wrapped
  after it; \<open>feedback\<close> reads the variable \<open>doneCallback\<close> when it is called, and finds the
  wrapped function there.
\<close>

definition getPutSocket :: "string \<Rightarrow> closure \<Rightarrow> closure \<Rightarrow> client \<Rightarrow> client" where
  "getPutSocket path cb doneCallback t =
     (let wd = Once (Suc (length (cells t))) doneCallback;
          feedback = Once (length (cells t)) (FeedbackCb cb wd)
      in getPasvSocket (PutSocketCb path feedback wd)
           (made doneCallback (made (FeedbackCb cb wd) t)))"

definition putReadable :: "string \<Rightarrow> closure \<Rightarrow> client \<Rightarrow> client" where
  "putReadable to cb t = getPutSocket to PutPipeCb cb (listen False ProgressCb t)"

text \<open>The measure under which the calls of \<open>invoke\<close> end.\<close>

fun depth :: "closure \<Rightarrow> nat" where
  "depth (Once c f) = Suc (depth f)"
| "depth (PasvCb w) = Suc (depth w)"
| "depth (ListSocketCb p b w) = Suc (depth w)"
| "depth (ListCloseCb b w) = Suc (depth w)"
| "depth (ListCmdCb w) = Suc (depth w)"
| "depth (TimeoutCb so w) = Suc (depth w)"
| "depth (GetFileCb l r w) = Suc (depth w)"
| "depth (GetSocketCb p w) = Suc (Suc (depth w))"
| "depth (GetSockErrorCb so w) = Suc (Suc (depth w))"
| "depth (GetCmdCb so w) = Suc (depth w)"
| "depth (PutStatCb from to cb) = Suc (depth cb)"
| "depth (FeedbackCb cb wd) = Suc (max (depth cb) (depth wd))"
| "depth (PutSocketCb p fb wd) = Suc (depth fb)"
| "depth (PutCmdCb fb wd so) = Suc (depth fb)"
| "depth (LsEntriesCb cb) = Suc (depth cb)"
| "depth (LsParsedCb cb) = Suc (depth cb)"
| "depth (LsStatCb p cb) = Suc (Suc (depth cb))"
| "depth _ = 0"

text \<open>
  \<open>invoke k e a\<close> is the call \<open>k(e, a)\<close>; a listener that takes the argument of its event
  alone finds it in \<open>a\<close>. Where the JavaScript throws a \<open>TypeError\<close> because a property of
  \<open>undefined\<close> is read, and for an argument of a shape that no call produces, the state is
  left as it is. Of the events that the FTP object emits (\<open>timeout\<close>, \<open>progress\<close>) and of
  what is read from or written to a data socket nothing is kept, the listing apart.
\<close>

function invoke :: "closure \<Rightarrow> failure option \<Rightarrow> payload \<Rightarrow> client \<Rightarrow> client" where
  "invoke Nop e a t = t"
| "invoke (User n) e a t = t\<lparr>answered := answered t @ [(n, e, a)]\<rparr>"
| "invoke (Once c f) e a t =
     (if isCalled c t then t else invoke f e a (markCalled c t))"
| "invoke (PasvCb w) e a t =
     (case e of
        Some err \<Rightarrow> invoke w (Some err) NoValue t
      | None \<Rightarrow>
          (case a of
             Answer r \<Rightarrow>
               (case getPasvPort (rtext r) of
                  None \<Rightarrow> invoke w (Some (Error (message badPassive))) NoValue t
                | Some options \<Rightarrow>
                    invoke w None (Socket (length (sockets t)))
                      (listen True ClearPasvCb
                         (t\<lparr>sockets := sockets t @ [options],
                            pasvSocket := Some (length (sockets t))\<rparr>)))
           | _ \<Rightarrow> t))"
| "invoke ClearPasvCb e a t = t\<lparr>pasvSocket := None\<rparr>"
| "invoke (ListSocketCb path b w) e a t =
     (case e of
        Some err \<Rightarrow> invoke w (Some err) NoValue t
      | None \<Rightarrow>
          (case a of
             Socket so \<Rightarrow>
               executeCb (''list '' @ path) (ListCmdCb w)
                 (listen True w
                    (listen True (ListCloseCb b w)
                       (listen True (TimeoutCb so w)
                          (listen False (ListDataCb b) t))))
           | _ \<Rightarrow> t))"
| "invoke (ListDataCb b) e a t =
     (case a of
        Text d \<Rightarrow> t\<lparr>buffers := (buffers t)[b := buffer b t @ d]\<rparr>
      | _ \<Rightarrow> t)"
| "invoke (ListCloseCb b w) e a t = invoke w e (Text (buffer b t)) t"
| "invoke (ListCmdCb w) e a t =
     (case e of
        Some err \<Rightarrow> invoke w (Some err) NoValue t
      | None \<Rightarrow>
          (case a of
             Answer r \<Rightarrow>
               (if code r \<in> set (marks expectedMarks) then t
                else invoke w (Some (notExpectedMark r)) NoValue t)
           | _ \<Rightarrow> t))"
| "invoke (TimeoutCb so w) e a t = invoke w (Some passiveTimeout) NoValue t"
| "invoke ProgressCb e a t = t"
| "invoke (GetFileCb localPath remotePath w) e a t =
     (case e of
        Some err \<Rightarrow> invoke w (Some err) NoValue t
      | None \<Rightarrow>
          (case a of
             Socket so \<Rightarrow>
               listen False w (listen False w (listen False w
                 (listen False ProgressCb (listen False w t))))
           | _ \<Rightarrow> t))"
| "invoke (GetSocketCb path w) e a t =
     (case e of
        Some err \<Rightarrow> invoke (GetCmdCb None w) (Some err) NoValue t
      | None \<Rightarrow>
          (case a of
             Socket so \<Rightarrow>
               executeCb (''retr '' @ path) (GetCmdCb (Some so) w)
                 (listen True (TimeoutCb so (GetCmdCb (Some so) w))
                    (listen False (GetSockErrorCb so w) t))
           | _ \<Rightarrow> t))"
| "invoke (GetSockErrorCb so w) e a t =
     (case e of
        None \<Rightarrow> t
      | Some err \<Rightarrow> invoke (GetCmdCb (Some so) w) (Some (refusedHint err)) NoValue t)"
| "invoke (GetCmdCb sock w) e a t =
     (case e of
        Some err \<Rightarrow> invoke w (Some err) NoValue t
      | None \<Rightarrow>
          (case sock of
             None \<Rightarrow> invoke w (Some noPasvSocket) NoValue t
           | Some so \<Rightarrow>
               (case a of
                  Answer r \<Rightarrow>
                    (if code r = 125 \<or> code r = 150 then invoke w None (Socket so) t
                     else invoke w (Some (unexpectedCommand r)) NoValue t)
                | _ \<Rightarrow> t)))"
| "invoke (PutStatCb from to cb) e a t =
     (case putStat (statError e) (statsOf a) of
        CallbackError m \<Rightarrow> invoke cb (Some (Error m)) NoValue t
      | PutReadable totalSize \<Rightarrow> putReadable to cb t
      | TypeError \<Rightarrow> t)"
| "invoke PutBufferCb e a t = t"
| "invoke PutPipeCb e a t = t"
| "invoke (FeedbackCb cb wd) e a t =
     (case e of
        Some err \<Rightarrow> invoke wd (Some err) NoValue (invoke cb (Some err) NoValue t)
      | None \<Rightarrow> invoke cb None a t)"
| "invoke (PutSocketCb path fb wd) e a t =
     (case e of
        Some err \<Rightarrow> invoke fb (Some err) NoValue t
      | None \<Rightarrow>
          (case a of
             Socket so \<Rightarrow>
               executeCb (''stor '' @ path) (once (PutCmdCb fb wd so) t)
                 (made (PutCmdCb fb wd so) (listen False wd (listen False wd t)))
           | _ \<Rightarrow> t))"
| "invoke (PutCmdCb fb wd so) e a t =
     (case e of
        Some err \<Rightarrow> invoke fb (Some err) NoValue t
      | None \<Rightarrow>
          (case a of
             Answer r \<Rightarrow>
               (if code r = 125 \<or> code r = 150
                then invoke fb None (Socket so) (listen True (TimeoutCb so wd) t)
                else invoke fb (Some (unexpectedCommand r)) NoValue t)
           | _ \<Rightarrow> t))"
| "invoke (LsEntriesCb cb) e a t =
     (case e of
        Some err \<Rightarrow> invoke cb (Some err) NoValue t
      | None \<Rightarrow>
          (case a of
             NoValue \<Rightarrow> t
           | _ \<Rightarrow> listen True (LsParsedCb cb) t))"
| "invoke (LsParsedCb cb) e a t =
     (case e of
        Some err \<Rightarrow> invoke cb (Some err) NoValue t
      | None \<Rightarrow>
          (case a of
             Files fs \<Rightarrow> invoke cb None (Files fs) t
           | _ \<Rightarrow> t))"
| "invoke (LsStatCb path cb) e a t =
     (if lsErrored e \<or> isHummingbird t
      then list path (LsEntriesCb cb) (t\<lparr>useList := True\<rparr>)
      else invoke (LsEntriesCb cb) e a t)"
  by pat_completeness auto

termination invoke
  by (relation "measure (\<lambda>(k, e, a, t). depth k)") auto

text \<open>
  \<open>get\<close>, whose second argument is a function or a local path, \<open>put\<close>, whose first
  argument is a buffer, a local path or a stream, and \<open>ls\<close>.
\<close>

definition get :: "string \<Rightarrow> closure + string \<Rightarrow> closure \<Rightarrow> client \<Rightarrow> client" where
  "get remotePath localPath cb t =
     (case localPath of
        Inl f \<Rightarrow> getGetSocket remotePath (once f t) (made f t)
      | Inr path \<Rightarrow> getGetSocket remotePath (GetFileCb path remotePath (once cb t)) (made cb t))"

datatype source = Buffer | Path string | Stream

definition put :: "source \<Rightarrow> string \<Rightarrow> closure \<Rightarrow> client \<Rightarrow> client" where
  "put from to cb t =
     (case from of
        Buffer \<Rightarrow> getPutSocket to PutBufferCb cb t
      | Path p \<Rightarrow> listen True (PutStatCb p to cb) t
      | Stream \<Rightarrow> putReadable to cb t)"

definition ls :: "string \<Rightarrow> closure \<Rightarrow> client \<Rightarrow> client" where
  "ls filePath cb t =
     (if useList t then list filePath (LsEntriesCb cb) t
      else rawCb [''stat'', filePath] (LsStatCb filePath cb) t)"

text \<open>
  What can happen: the caller calls a method and hands it a function; a function that was
  handed over is called, by a socket, by a stream, by \<open>fs.stat\<close>, by the listing parser or
  by the command queue, with any arguments (a one-shot function once at most, any other as
  often as one likes); something happens to the command queue.
\<close>

datatype request =
    GetPasvSocketReq
  | ListReq string
  | GetSocketReq string
  | GetReq string
  | GetFileReq string string
  | PutReq source string
  | LsReq string

fun start :: "request \<Rightarrow> closure \<Rightarrow> client \<Rightarrow> client" where
  "start GetPasvSocketReq cb t = getPasvSocket cb t"
| "start (ListReq path) cb t = list path cb t"
| "start (GetSocketReq path) cb t = getGetSocket path cb t"
| "start (GetReq remotePath) cb t = get remotePath (Inl cb) Nop t"
| "start (GetFileReq remotePath localPath) cb t = get remotePath (Inr localPath) cb t"
| "start (PutReq from to) cb t = put from to cb t"
| "start (LsReq path) cb t = ls path cb t"

definition fire :: "nat \<Rightarrow> failure option \<Rightarrow> payload \<Rightarrow> client \<Rightarrow> client" where
  "fire i e a t =
     (if i < length (handlers t) \<and> live (handlers t ! i)
      then invoke (hfn (handlers t ! i)) e a
             (if oneShot (handlers t ! i)
              then t\<lparr>handlers := (handlers t)[i := (handlers t ! i)\<lparr>live := False\<rparr>]\<rparr>
              else t)
      else t)"

datatype happening =
    Call request nat
  | Fire nat "failure option" payload
  | Queue event

fun advance :: "happening \<Rightarrow> client \<Rightarrow> client" where
  "advance (Call rq n) t = start rq (User n) t"
| "advance (Fire i e a) t = fire i e a t"
| "advance (Queue ev) t = t\<lparr>ftp := step ev (ftp t)\<rparr>"

definition advances :: "happening list \<Rightarrow> client \<Rightarrow> client" where
  "advances evs t = foldl (\<lambda>t ev. advance ev t) t evs"

text \<open>The client that the constructor leaves.\<close>

definition newClient :: "string \<Rightarrow> string \<Rightarrow> bool \<Rightarrow> client" where
  "newClient u p ul =
     \<lparr>ftp = newFTP u p, useList = ul, pasvSocket = None, cells = [], handlers = [],
      buffers = [], sockets = [], answered = []\<rparr>"

section \<open>How often a data method calls its callback\<close>

text \<open>
  \<open>bare n k\<close> counts the places where the function \<open>n\<close> of the caller stands in \<open>k\<close>
  outside every function made by \<open>once\<close>.
\<close>

fun bare :: "nat \<Rightarrow> closure \<Rightarrow> nat" where
  "bare n (User m) = (if m = n then 1 else 0)"
| "bare n (Once c f) = 0"
| "bare n (PasvCb w) = bare n w"
| "bare n (ListSocketCb p b w) = bare n w"
| "bare n (ListCloseCb b w) = bare n w"
| "bare n (ListCmdCb w) = bare n w"
| "bare n (TimeoutCb so w) = bare n w"
| "bare n (GetFileCb l r w) = bare n w"
| "bare n (GetSocketCb p w) = bare n w"
| "bare n (GetSockErrorCb so w) = bare n w"
| "bare n (GetCmdCb so w) = bare n w"
| "bare n (PutStatCb from to cb) = bare n cb"
| "bare n (FeedbackCb cb wd) = bare n cb + bare n wd"
| "bare n (PutSocketCb p fb wd) = bare n fb + bare n wd"
| "bare n (PutCmdCb fb wd so) = bare n fb + bare n wd"
| "bare n (LsEntriesCb cb) = bare n cb"
| "bare n (LsParsedCb cb) = bare n cb"
| "bare n (LsStatCb p cb) = bare n cb"
| "bare n _ = 0"

text \<open>
  \<open>guarded n cs k\<close>: every function made by \<open>once\<close> that stands in \<open>k\<close> is the one that
  \<open>cs\<close> holds under its number, and a callback that \<open>k\<close> hands to several listeners, or to
  a listener that may be called again and again, has \<open>n\<close> inside such functions only.
\<close>

fun guarded :: "nat \<Rightarrow> (bool \<times> closure) list \<Rightarrow> closure \<Rightarrow> bool" where
  "guarded n cs (Once c f) = (c < length cs \<and> snd (cs ! c) = f \<and> guarded n cs f)"
| "guarded n cs (PasvCb w) = guarded n cs w"
| "guarded n cs (ListSocketCb p b w) = (bare n w = 0 \<and> guarded n cs w)"
| "guarded n cs (ListCloseCb b w) = guarded n cs w"
| "guarded n cs (ListCmdCb w) = guarded n cs w"
| "guarded n cs (TimeoutCb so w) = guarded n cs w"
| "guarded n cs (GetFileCb l r w) = (bare n w = 0 \<and> guarded n cs w)"
| "guarded n cs (GetSocketCb p w) = (bare n w = 0 \<and> guarded n cs w)"
| "guarded n cs (GetSockErrorCb so w) = (bare n w = 0 \<and> guarded n cs w)"
| "guarded n cs (GetCmdCb so w) = guarded n cs w"
| "guarded n cs (PutStatCb from to cb) = guarded n cs cb"
| "guarded n cs (FeedbackCb cb wd) = (guarded n cs cb \<and> guarded n cs wd)"
| "guarded n cs (PutSocketCb p fb wd) = (bare n wd = 0 \<and> guarded n cs fb \<and> guarded n cs wd)"
| "guarded n cs (PutCmdCb fb wd so) = (guarded n cs fb \<and> guarded n cs wd)"
| "guarded n cs (LsEntriesCb cb) = guarded n cs cb"
| "guarded n cs (LsParsedCb cb) = guarded n cs cb"
| "guarded n cs (LsStatCb p cb) = guarded n cs cb"
| "guarded n cs _ = True"

text \<open>
  \<open>answers n t\<close> is the number of calls of \<open>n\<close> so far, and \<open>owed n t\<close> the number of
  places where \<open>n\<close> stands bare in a function made by \<open>once\<close> that has not been called yet,
  or in a function that was handed over and may still be called.
\<close>

definition answers :: "nat \<Rightarrow> client \<Rightarrow> nat" where
  "answers n t = length (filter (\<lambda>x. fst x = n) (answered t))"

definition owed :: "nat \<Rightarrow> client \<Rightarrow> nat" where
  "owed n t =
     sum_list (map (\<lambda>x. if fst x then 0 else bare n (snd x)) (cells t))
     + sum_list (map (\<lambda>h. if live h then bare n (hfn h) else 0) (handlers t))"

definition sound :: "nat \<Rightarrow> client \<Rightarrow> bool" where
  "sound n t \<longleftrightarrow>
     (\<forall>x\<in>set (cells t). guarded n (cells t) (snd x)) \<and>
     (\<forall>h\<in>set (handlers t). guarded n (cells t) (hfn h)
                             \<and> (live h \<and> \<not> oneShot h \<longrightarrow> bare n (hfn h) = 0))"

definition ext :: "(bool \<times> closure) list \<Rightarrow> (bool \<times> closure) list \<Rightarrow> bool" where
  "ext cs cs' \<longleftrightarrow> length cs \<le> length cs' \<and> (\<forall>c<length cs. snd (cs' ! c) = snd (cs ! c))"

definition good :: "nat \<Rightarrow> nat \<Rightarrow> client \<Rightarrow> client \<Rightarrow> bool" where
  "good n x t t' \<longleftrightarrow>
     sound n t' \<and> ext (cells t) (cells t')
     \<and> answers n t' + owed n t' \<le> answers n t + owed n t + x"

text \<open>An event in which the caller hands the function \<open>n\<close> to a method.\<close>

fun hands :: "nat \<Rightarrow> happening \<Rightarrow> bool" where
  "hands n (Call rq m) = (m = n)"
| "hands n _ = False"

text \<open>
  A listing as it may go: the reply to \<open>pasv\<close>, a chunk of data, the mark, then the data
  socket closes, fails and times out, the command fails after all, and the socket closes
  once more. The numbers are the places in \<open>handlers\<close>: 0 the callback of \<open>pasv\<close>, 2 to 5
  the listeners for \<open>data\<close>, \<open>timeout\<close>, \<open>close\<close> and \<open>error\<close>, 6 the callback of
  \<open>list\<close>.
\<close>

definition pasv227 :: response where
  "pasv227 = reply 227 ''227 Entering Passive Mode (127,0,0,1,10,20)''"

definition listEvents :: "happening list" where
  "listEvents =
     [Fire 0 None (Answer pasv227),
      Fire 2 None (Text ''drwxr-xr-x 2 ftp ftp 4096 Jan 01 00:00 pub''),
      Fire 6 None (Answer (reply 150 ''150 Here comes the directory listing'')),
      Fire 4 None NoValue,
      Fire 5 (Some (Error ''read ECONNRESET'')) NoValue,
      Fire 3 None NoValue,
      Fire 6 (Some \<lparr>fmessage = ''426 Connection closed'', fcode = Num 426, fmsg = None\<rparr>)
        (Answer (reply 426 ''426 Connection closed'')),
      Fire 4 None NoValue]"

text \<open>
  The replies to a first \<open>pwd\<close>: those of the implicit chain, the reply to \<open>pwd\<close>, and
  that reply once more.
\<close>

definition pwdReplies :: "event list" where
  "pwdReplies =
     [Reply featReply, Reply (reply 215 ''215 UNIX Type: L8''),
      Reply (reply 331 ''331 Password required''), Reply (reply 230 ''230 Logged in''),
      Reply (reply 200 ''200 Type set to I''), Reply (reply 257 ''257 /home''),
      Reply (reply 257 ''257 /home'')]"

lemma ext_refl [simp]: "ext cs cs"
  by (simp add: ext_def)

lemma ext_trans: "ext cs cs' \<Longrightarrow> ext cs' cs'' \<Longrightarrow> ext cs cs''"
  by (auto simp: ext_def)

lemma ext_append [simp]: "ext cs (cs @ ys)"
  by (simp add: ext_def nth_append)

lemma ext_update [simp]: "ext cs (cs[c := (b, snd (cs ! c))])"
  by (cases "c < length cs") (auto simp: ext_def nth_list_update)

lemma guarded_ext: "guarded n cs k \<Longrightarrow> ext cs cs' \<Longrightarrow> guarded n cs' k"
  by (induction n cs k rule: guarded.induct) (auto simp: ext_def)

lemma guarded_append [simp]: "guarded n cs k \<Longrightarrow> guarded n (cs @ ys) k"
  using guarded_ext[of n cs k "cs @ ys"] by simp

lemma sum_list_update:
  "i < length xs \<Longrightarrow>
     sum_list (map f (xs[i := y])) + f (xs ! i) = sum_list (map f xs) + (f y :: nat)"
proof (induction xs arbitrary: i)
  case Nil
  then show ?case by simp
next
  case (Cons x xs)
  then show ?case by (cases i) auto
qed

lemma good_refl: "sound n t \<Longrightarrow> good n 0 t t"
  by (simp add: good_def)

lemma good_trans: "good n x t t' \<Longrightarrow> good n y t' t'' \<Longrightarrow> good n (x + y) t t''"
  by (auto simp: good_def intro: ext_trans)

lemma good_mono: "good n x t t' \<Longrightarrow> x \<le> y \<Longrightarrow> good n y t t'"
  by (auto simp: good_def)

lemma good_sound: "good n x t t' \<Longrightarrow> sound n t'"
  by (simp add: good_def)

lemma good_guarded: "good n x t t' \<Longrightarrow> guarded n (cells t) k \<Longrightarrow> guarded n (cells t') k"
  by (auto simp: good_def intro: guarded_ext)

text \<open>The steps of which the methods are made.\<close>

lemma listen_fields [simp]:
  "cells (listen b k t) = cells t"
  "answers n (listen b k t) = answers n t"
  "owed n (listen b k t) = owed n t + bare n k"
  "buffers (listen b k t) = buffers t"
  "ftp (listen b k t) = ftp t"
  by (simp_all add: listen_def answers_def owed_def)

lemma sound_listen [simp]:
  "sound n (listen b k t) \<longleftrightarrow>
     sound n t \<and> guarded n (cells t) k \<and> (\<not> b \<longrightarrow> bare n k = 0)"
  by (auto simp: sound_def listen_def)

lemma made_fields [simp]:
  "cells (made f t) = cells t @ [(False, f)]"
  "handlers (made f t) = handlers t"
  "answers n (made f t) = answers n t"
  "owed n (made f t) = owed n t + bare n f"
  "buffers (made f t) = buffers t"
  by (simp_all add: made_def answers_def owed_def)

lemma sound_made:
  "sound n t \<Longrightarrow> guarded n (cells t @ [(False, f)]) f \<Longrightarrow> sound n (made f t)"
  by (auto simp: sound_def made_def)

lemma frame_fields [simp]:
  "sound n (t\<lparr>ftp := x\<rparr>) = sound n t"
  "owed n (t\<lparr>ftp := x\<rparr>) = owed n t"
  "answers n (t\<lparr>ftp := x\<rparr>) = answers n t"
  "sound n (t\<lparr>buffers := bs\<rparr>) = sound n t"
  "owed n (t\<lparr>buffers := bs\<rparr>) = owed n t"
  "answers n (t\<lparr>buffers := bs\<rparr>) = answers n t"
  "sound n (t\<lparr>useList := u\<rparr>) = sound n t"
  "owed n (t\<lparr>useList := u\<rparr>) = owed n t"
  "answers n (t\<lparr>useList := u\<rparr>) = answers n t"
  "sound n (t\<lparr>pasvSocket := ps\<rparr>) = sound n t"
  "owed n (t\<lparr>pasvSocket := ps\<rparr>) = owed n t"
  "answers n (t\<lparr>pasvSocket := ps\<rparr>) = answers n t"
  "sound n (t\<lparr>sockets := ss\<rparr>) = sound n t"
  "owed n (t\<lparr>sockets := ss\<rparr>) = owed n t"
  "answers n (t\<lparr>sockets := ss\<rparr>) = answers n t"
  by (simp_all add: sound_def owed_def answers_def)

lemma executeCb_fields [simp]:
  "cells (executeCb act k t) = cells t"
  "answers n (executeCb act k t) = answers n t"
  "owed n (executeCb act k t) = owed n t + bare n k"
  "sound n (executeCb act k t) \<longleftrightarrow> sound n t \<and> guarded n (cells t) k \<and> bare n k = 0"
  "cells (rawCb xs k t) = cells t"
  "answers n (rawCb xs k t) = answers n t"
  "owed n (rawCb xs k t) = owed n t + bare n k"
  "sound n (rawCb xs k t) \<longleftrightarrow> sound n t \<and> guarded n (cells t) k"
  by (simp_all add: executeCb_def rawCb_def)

lemma good_getPasvSocket:
  assumes "sound n t" and "guarded n (cells t) cb"
  shows "good n (bare n cb) t (getPasvSocket cb t)"
  using assms
  by (simp add: good_def getPasvSocket_def once_def sound_made)

lemma good_list:
  assumes "sound n t" and "guarded n (cells t) cb"
  shows "good n (bare n cb) t (list path cb t)"
proof -
  let ?t1 = "made cb (t\<lparr>buffers := buffers t @ [Nil]\<rparr>)"
  let ?k = "ListSocketCb path (length (buffers t)) (once cb t)"
  have 1: "good n (bare n cb) t ?t1"
    using assms by (simp add: good_def sound_made)
  have "guarded n (cells ?t1) ?k"
    using assms(2) by (simp add: once_def)
  then have 2: "good n 0 ?t1 (getPasvSocket ?k ?t1)"
    using good_getPasvSocket[of n ?t1 ?k] good_sound[OF 1] by (simp add: once_def)
  from good_trans[OF 1 2] show ?thesis
    by (simp add: list_def)
qed

lemma good_getGetSocket:
  assumes "sound n t" and "guarded n (cells t) cb"
  shows "good n (bare n cb) t (getGetSocket path cb t)"
proof -
  let ?t1 = "made cb t"
  let ?k = "GetSocketCb path (once cb t)"
  have 1: "good n (bare n cb) t ?t1"
    using assms by (simp add: good_def sound_made)
  have "guarded n (cells ?t1) ?k"
    using assms(2) by (simp add: once_def)
  then have 2: "good n 0 ?t1 (getPasvSocket ?k ?t1)"
    using good_getPasvSocket[of n ?t1 ?k] good_sound[OF 1] by (simp add: once_def)
  from good_trans[OF 1 2] show ?thesis
    by (simp add: getGetSocket_def)
qed

lemma good_getPutSocket:
  assumes "sound n t" and "guarded n (cells t) cb" and "guarded n (cells t) d"
  shows "good n (bare n cb + bare n d) t (getPutSocket path cb d t)"
proof -
  let ?wd = "Once (Suc (length (cells t))) d"
  let ?fb = "Once (length (cells t)) (FeedbackCb cb ?wd)"
  let ?t1 = "made d (made (FeedbackCb cb ?wd) t)"
  have c: "cells ?t1 = cells t @ [(False, FeedbackCb cb ?wd), (False, d)]"
    by simp
  have g: "guarded n (cells ?t1) cb" "guarded n (cells ?t1) d"
    using assms(2,3) unfolding c by simp_all
  have wd: "guarded n (cells ?t1) ?wd"
    using g unfolding c by (simp add: nth_append)
  have fb: "guarded n (cells ?t1) ?fb"
    using g wd unfolding c by (simp add: nth_append)
  have s: "sound n ?t1"
    using assms(1) g wd unfolding sound_def c
    by (auto simp: made_def nth_append)
  have 1: "good n (bare n cb + bare n d) t ?t1"
    using s by (simp add: good_def)
  have 2: "good n 0 ?t1 (getPasvSocket (PutSocketCb path ?fb ?wd) ?t1)"
    using good_getPasvSocket[of n ?t1 "PutSocketCb path ?fb ?wd"] s fb wd by simp
  from good_trans[OF 1 2] show ?thesis
    by (simp add: getPutSocket_def Let_def)
qed

lemma good_putReadable:
  assumes "sound n t" and "guarded n (cells t) cb"
  shows "good n (bare n cb) t (putReadable to cb t)"
proof -
  have 1: "good n 0 t (listen False ProgressCb t)"
    using assms by (simp add: good_def)
  have 2: "good n (bare n cb) (listen False ProgressCb t)
          (getPutSocket to PutPipeCb cb (listen False ProgressCb t))"
    using good_getPutSocket[of n "listen False ProgressCb t" PutPipeCb cb to] assms by simp
  from good_trans[OF 1 2] show ?thesis
    by (simp add: putReadable_def)
qed

lemma markCalled_fields [simp]:
  "answers n (markCalled c t) = answers n t"
  "handlers (markCalled c t) = handlers t"
  "ext (cells t) (cells (markCalled c t))"
  by (simp_all add: markCalled_def answers_def)

lemma sound_markCalled:
  assumes "sound n t"
  shows "sound n (markCalled c t)"
proof -
  let ?cs = "cells (markCalled c t)"
  have e: "ext (cells t) ?cs" by simp
  have l: "length ?cs = length (cells t)" by (simp add: markCalled_def)
  have "guarded n ?cs (snd x)" if "x \<in> set ?cs" for x
  proof -
    from that obtain i where i: "i < length ?cs" "x = ?cs ! i"
      by (auto simp: in_set_conv_nth)
    then have "snd x = snd (cells t ! i)"
      using e l by (simp add: ext_def)
    moreover have "guarded n (cells t) (snd (cells t ! i))"
      using assms i(1) l by (simp add: sound_def)
    ultimately show ?thesis
      using guarded_ext[OF _ e] by simp
  qed
  moreover have "guarded n ?cs (hfn h) \<and> (live h \<and> \<not> oneShot h \<longrightarrow> bare n (hfn h) = 0)"
    if "h \<in> set (handlers (markCalled c t))" for h
    using that assms guarded_ext[OF _ e] by (simp add: sound_def)
  ultimately show ?thesis
    unfolding sound_def by blast
qed

lemma owed_markCalled:
  assumes "c < length (cells t)" and "\<not> fst (cells t ! c)"
  shows "owed n (markCalled c t) + bare n (snd (cells t ! c)) = owed n t"
  using assms
    sum_list_update[of c "cells t" "\<lambda>x. if fst x then 0 else bare n (snd x)" "(True, snd (cells t ! c))"]
  by (simp add: owed_def markCalled_def)

text \<open>
  Calling a function adds to the calls of \<open>n\<close> and to what is owed no more than the places
  where \<open>n\<close> stands bare in it.
\<close>

lemma good_invoke:
  "sound n t \<Longrightarrow> guarded n (cells t) k \<Longrightarrow> good n (bare n k) t (invoke k e a t)"
proof (induction k e a t rule: invoke.induct)
  case (1 e a t)
  then show ?case by (simp add: good_def)
next
  case (2 m e a t)
  then show ?case by (simp add: good_def sound_def owed_def answers_def)
next
  case (3 c f e a t)
  show ?case
  proof (cases "isCalled c t")
    case True
    with 3 show ?thesis by (simp add: good_def)
  next
    case False
    have c: "c < length (cells t)" "snd (cells t ! c) = f" "guarded n (cells t) f"
      using "3.prems"(2) by simp_all
    have nf: "\<not> fst (cells t ! c)" using False c(1) by (simp add: isCalled_def)
    have s: "sound n (markCalled c t)" using "3.prems"(1) by (rule sound_markCalled)
    have g: "guarded n (cells (markCalled c t)) f"
      using c(3) by (rule guarded_ext) simp
    have ih: "good n (bare n f) (markCalled c t) (invoke f e a (markCalled c t))"
      using "3.IH"[OF False s g] .
    have o: "owed n (markCalled c t) + bare n f = owed n t"
      using owed_markCalled[OF c(1) nf, of n] c(2) by simp
    have "ext (cells t) (cells (invoke f e a (markCalled c t)))"
      using ih by (auto simp: good_def intro: ext_trans[OF markCalled_fields(3)])
    with ih o False show ?thesis
      by (simp add: good_def)
  qed
next
  case (4 w e a t)
  show ?case
  proof (cases e)
    case (Some err)
    with 4 show ?thesis by simp
  next
    case None
    show ?thesis
    proof (cases a)
      case (Answer r)
      show ?thesis
      proof (cases "getPasvPort (rtext r)")
        case N: None
        with 4 None Answer show ?thesis by simp
      next
        case (Some options)
        let ?t1 = "listen True ClearPasvCb
                     (t\<lparr>sockets := sockets t @ [options], pasvSocket := Some (length (sockets t))\<rparr>)"
        have s: "sound n ?t1" using "4.prems"(1) by simp
        have g: "guarded n (cells ?t1) w" using "4.prems"(2) by simp
        have 2: "good n (bare n w) ?t1 (invoke w None (Socket (length (sockets t))) ?t1)"
          using "4.IH" None Answer Some s g by simp
        have 1: "good n 0 t ?t1" using s by (simp add: good_def)
        from good_trans[OF 1 2] None Answer Some show ?thesis by simp
      qed
    qed (use 4 None in \<open>simp_all add: good_def\<close>)
  qed
next
  case (5 e a t)
  then show ?case by (simp add: good_def)
next
  case (6 path b w e a t)
  show ?case
  proof (cases e)
    case (Some err)
    with 6 show ?thesis by simp
  next
    case None
    with 6 show ?thesis
      by (cases a) (simp_all add: good_def)
  qed
next
  case (7 b e a t)
  then show ?case by (cases a) (simp_all add: good_def)
next
  case (8 b w e a t)
  then show ?case by simp
next
  case (9 w e a t)
  show ?case
  proof (cases e)
    case (Some err)
    with 9 show ?thesis by simp
  next
    case None
    with 9 show ?thesis
      by (cases a) (simp_all add: good_def)
  qed
next
  case (10 so w e a t)
  then show ?case by simp
next
  case (11 e a t)
  then show ?case by (simp add: good_def)
next
  case (12 localPath remotePath w e a t)
  show ?case
  proof (cases e)
    case (Some err)
    with 12 show ?thesis by simp
  next
    case None
    with 12 show ?thesis
      by (cases a) (simp_all add: good_def)
  qed
next
  case (13 path w e a t)
  show ?case
  proof (cases e)
    case (Some err)
    with 13 show ?thesis by simp
  next
    case None
    with 13 show ?thesis
      by (cases a) (simp_all add: good_def)
  qed
next
  case (14 so w e a t)
  then show ?case by (cases e) (simp_all add: good_def)
next
  case (15 sock w e a t)
  show ?case
  proof (cases e)
    case (Some err)
    with 15 show ?thesis by simp
  next
    case None
    show ?thesis
    proof (cases sock)
      case N: None
      with 15 None show ?thesis by simp
    next
      case (Some so)
      with 15 None show ?thesis
        by (cases a) (simp_all add: good_def)
    qed
  qed
next
  case (16 "from" to cb e a t)
  show ?case
  proof (cases "putStat (statError e) (statsOf a)")
    case (CallbackError m)
    with 16 show ?thesis by simp
  next
    case (PutReadable totalSize)
    with "16.prems" good_putReadable[of n t cb to] show ?thesis by simp
  next
    case TypeError
    with 16 show ?thesis by (simp add: good_def)
  qed
next
  case (17 e a t)
  then show ?case by (simp add: good_def)
next
  case (18 e a t)
  then show ?case by (simp add: good_def)
next
  case (19 cb wd e a t)
  show ?case
  proof (cases e)
    case None
    with 19 have "good n (bare n cb) t (invoke (FeedbackCb cb wd) e a t)" by simp
    then show ?thesis by (rule good_mono) simp
  next
    case (Some err)
    let ?t1 = "invoke cb (Some err) NoValue t"
    have 1: "good n (bare n cb) t ?t1"
      using "19.IH" Some "19.prems" by simp
    have "good n (bare n wd) ?t1 (invoke wd (Some err) NoValue ?t1)"
      using "19.IH" Some good_sound[OF 1] good_guarded[OF 1, of wd] "19.prems"(2) by simp
    with 1 have "good n (bare n cb + bare n wd) t (invoke wd (Some err) NoValue ?t1)"
      by (rule good_trans)
    with Some show ?thesis by simp
  qed
next
  case (20 path fb wd e a t)
  show ?case
  proof (cases e)
    case (Some err)
    with 20 have "good n (bare n fb) t (invoke (PutSocketCb path fb wd) e a t)" by simp
    then show ?thesis by (rule good_mono) simp
  next
    case None
    show ?thesis
    proof (cases a)
      case (Socket so)
      with 20 None show ?thesis
        by (simp add: good_def once_def sound_made nth_append)
    qed (use 20 None in \<open>simp_all add: good_def\<close>)
  qed
next
  case (21 fb wd so e a t)
  show ?case
  proof (cases e)
    case (Some err)
    with 21 have "good n (bare n fb) t (invoke (PutCmdCb fb wd so) e a t)" by simp
    then show ?thesis by (rule good_mono) simp
  next
    case None
    show ?thesis
    proof (cases a)
      case (Answer r)
      show ?thesis
      proof (cases "code r = 125 \<or> code r = 150")
        case True
        let ?t1 = "listen True (TimeoutCb so wd) t"
        have 1: "good n (bare n wd) t ?t1" using "21.prems" by (simp add: good_def)
        have "good n (bare n fb) ?t1 (invoke fb None (Socket so) ?t1)"
          using "21.IH" None Answer True "21.prems" by simp
        with 1 have "good n (bare n wd + bare n fb) t (invoke fb None (Socket so) ?t1)"
          by (rule good_trans)
        with None Answer True show ?thesis by (simp add: add.commute)
      next
        case False
        with 21 None Answer have "good n (bare n fb) t (invoke (PutCmdCb fb wd so) e a t)" by simp
        then show ?thesis by (rule good_mono) simp
      qed
    qed (use 21 None in \<open>simp_all add: good_def\<close>)
  qed
next
  case (22 cb e a t)
  show ?case
  proof (cases e)
    case (Some err)
    with 22 show ?thesis by simp
  next
    case None
    with 22 show ?thesis
      by (cases a) (simp_all add: good_def)
  qed
next
  case (23 cb e a t)
  show ?case
  proof (cases e)
    case (Some err)
    with 23 show ?thesis by simp
  next
    case None
    with 23 show ?thesis
      by (cases a) (simp_all add: good_def)
  qed
next
  case (24 path cb e a t)
  show ?case
  proof (cases "lsErrored e \<or> isHummingbird t")
    case True
    have "good n (bare n (LsEntriesCb cb)) (t\<lparr>useList := True\<rparr>)
            (list path (LsEntriesCb cb) (t\<lparr>useList := True\<rparr>))"
      using "24.prems" by (intro good_list) simp_all
    then have "good n (bare n cb) t (list path (LsEntriesCb cb) (t\<lparr>useList := True\<rparr>))"
      by (simp add: good_def)
    with True show ?thesis by simp
  next
    case False
    with 24 show ?thesis by simp
  qed
qed

lemma owed_kill:
  assumes "i < length (handlers t)" and "live (handlers t ! i)"
  shows "owed n (t\<lparr>handlers := (handlers t)[i := (handlers t ! i)\<lparr>live := False\<rparr>]\<rparr>)
           + bare n (hfn (handlers t ! i)) = owed n t"
  using assms
    sum_list_update[of i "handlers t" "\<lambda>h. if live h then bare n (hfn h) else 0"
      "(handlers t ! i)\<lparr>live := False\<rparr>"]
  by (simp add: owed_def)

lemma sound_kill:
  assumes "sound n t"
  shows "sound n (t\<lparr>handlers := (handlers t)[i := (handlers t ! i)\<lparr>live := False\<rparr>]\<rparr>)"
proof -
  let ?hs = "(handlers t)[i := (handlers t ! i)\<lparr>live := False\<rparr>]"
  have "guarded n (cells t) (hfn h) \<and> (live h \<and> \<not> oneShot h \<longrightarrow> bare n (hfn h) = 0)"
    if "h \<in> set ?hs" for h
  proof -
    from that obtain j where j: "j < length (handlers t)" "h = ?hs ! j"
      by (auto simp: in_set_conv_nth)
    have "handlers t ! j \<in> set (handlers t)" using j(1) by simp
    then have "guarded n (cells t) (hfn (handlers t ! j))
        \<and> (live (handlers t ! j) \<and> \<not> oneShot (handlers t ! j) \<longrightarrow> bare n (hfn (handlers t ! j)) = 0)"
      using assms unfolding sound_def by blast
    then show ?thesis
      using j by (cases "j = i") simp_all
  qed
  then show ?thesis
    using assms by (simp add: sound_def)
qed

lemma good_fire:
  assumes "sound n t"
  shows "good n 0 t (fire i e a t)"
proof (cases "i < length (handlers t) \<and> live (handlers t ! i)")
  case False
  with assms show ?thesis by (auto simp: fire_def good_def)
next
  case True
  let ?h = "handlers t ! i"
  have h: "?h \<in> set (handlers t)" using True by simp
  then have g: "guarded n (cells t) (hfn ?h)"
    and m: "\<not> oneShot ?h \<Longrightarrow> bare n (hfn ?h) = 0"
    using assms True unfolding sound_def by blast+
  show ?thesis
  proof (cases "oneShot ?h")
    case False
    have "good n (bare n (hfn ?h)) t (invoke (hfn ?h) e a t)"
      using assms g by (rule good_invoke)
    with True False m show ?thesis by (simp add: fire_def)
  next
    case oneShot: True
    let ?t1 = "t\<lparr>handlers := (handlers t)[i := ?h\<lparr>live := False\<rparr>]\<rparr>"
    have s: "sound n ?t1" using assms by (rule sound_kill)
    have "good n (bare n (hfn ?h)) ?t1 (invoke (hfn ?h) e a ?t1)"
      using s g by (intro good_invoke) simp_all
    moreover have "owed n ?t1 + bare n (hfn ?h) = owed n t"
      using True by (intro owed_kill) simp_all
    moreover have "answers n ?t1 = answers n t" "cells ?t1 = cells t"
      by (simp_all add: answers_def)
    ultimately have "good n 0 t (invoke (hfn ?h) e a ?t1)"
      by (simp add: good_def)
    with True oneShot show ?thesis by (simp add: fire_def)
  qed
qed

lemma good_wrapped:
  assumes "sound n t" and "guarded n (cells t) cb"
    and "\<And>cs. guarded n cs (Once (length (cells t)) cb) \<Longrightarrow> guarded n cs k"
    and "bare n k = 0"
  shows "good n (bare n cb) t (getGetSocket path k (made cb t))"
proof -
  have 1: "good n (bare n cb) t (made cb t)"
    using assms(1,2) by (simp add: good_def sound_made)
  have "guarded n (cells (made cb t)) (Once (length (cells t)) cb)"
    using assms(2) by simp
  then have "guarded n (cells (made cb t)) k"
    by (rule assms(3))
  then have 2: "good n 0 (made cb t) (getGetSocket path k (made cb t))"
    using good_getGetSocket[of n "made cb t" k path] good_sound[OF 1] assms(4) by simp
  from good_trans[OF 1 2] show ?thesis by simp
qed

lemma good_start:
  assumes "sound n t" and "guarded n (cells t) cb"
  shows "good n (bare n cb) t (start rq cb t)"
proof (cases rq)
  case GetPasvSocketReq
  with assms show ?thesis by (simp add: good_getPasvSocket)
next
  case (ListReq path)
  with assms show ?thesis by (simp add: good_list)
next
  case (GetSocketReq path)
  with assms show ?thesis by (simp add: good_getGetSocket)
next
  case (GetReq remotePath)
  have "good n (bare n cb) t (getGetSocket remotePath (once cb t) (made cb t))"
    using assms by (intro good_wrapped) (simp_all add: once_def)
  with GetReq show ?thesis by (simp add: get_def)
next
  case (GetFileReq remotePath localPath)
  have "good n (bare n cb) t
          (getGetSocket remotePath (GetFileCb localPath remotePath (once cb t)) (made cb t))"
    using assms by (intro good_wrapped) (simp_all add: once_def)
  with GetFileReq show ?thesis by (simp add: get_def)
next
  case (PutReq "from" to)
  show ?thesis
  proof (cases "from")
    case Buffer
    with PutReq assms good_getPutSocket[of n t PutBufferCb cb to] show ?thesis
      by (simp add: put_def)
  next
    case (Path p)
    with PutReq assms show ?thesis by (simp add: put_def good_def)
  next
    case Stream
    with PutReq assms show ?thesis by (simp add: put_def good_putReadable)
  qed
next
  case (LsReq path)
  show ?thesis
  proof (cases "useList t")
    case True
    with LsReq assms good_list[of n t "LsEntriesCb cb" path] show ?thesis
      by (simp add: ls_def)
  next
    case False
    with LsReq assms show ?thesis by (simp add: ls_def good_def)
  qed
qed

lemma good_advance:
  assumes "sound n t" and "\<not> hands n ev"
  shows "good n 0 t (advance ev t)"
proof (cases ev)
  case (Call rq m)
  with assms(2) have "bare n (User m) = 0" by simp
  with good_start[of n t "User m" rq] assms(1) Call show ?thesis by simp
next
  case (Fire i e a)
  with assms(1) show ?thesis by (simp add: good_fire)
next
  case (Queue qe)
  with assms(1) show ?thesis by (simp add: good_def)
qed

lemma good_advances:
  assumes "sound n t" and "\<forall>ev\<in>set evs. \<not> hands n ev"
  shows "good n 0 t (advances evs t)"
  using assms
proof (induction evs arbitrary: t)
  case Nil
  then show ?case by (simp add: advances_def good_def)
next
  case (Cons ev evs)
  have 1: "good n 0 t (advance ev t)"
    using Cons.prems by (simp add: good_advance)
  have 2: "good n 0 (advance ev t) (advances evs (advance ev t))"
    using Cons.IH[OF good_sound[OF 1]] Cons.prems(2) by simp
  from good_trans[OF 1 2] show ?case by (simp add: advances_def)
qed

lemma advances_append: "advances (xs @ ys) t = advances ys (advances xs t)"
  by (simp add: advances_def)

lemma advances_Cons: "advances (ev # evs) t = advances evs (advance ev t)"
  by (simp add: advances_def)

lemma newClient_sound: "sound n (newClient u p ul)"
  and newClient_owes: "answers n (newClient u p ul) + owed n (newClient u p ul) = 0"
  by (simp_all add: newClient_def sound_def answers_def owed_def)

lemma data_callback_once:
  assumes "\<forall>ev\<in>set before. \<not> hands n ev" and "\<forall>ev\<in>set after. \<not> hands n ev"
  shows "answers n (advances (before @ Call rq n # after) (newClient u p ul)) \<le> 1"
proof -
  let ?t0 = "newClient u p ul"
  let ?t1 = "advances before ?t0"
  let ?t2 = "advance (Call rq n) ?t1"
  have 1: "good n 0 ?t0 ?t1"
    using newClient_sound assms(1) by (rule good_advances)
  have 2: "good n (bare n (User n)) ?t1 ?t2"
    using good_start[of n ?t1 "User n" rq] good_sound[OF 1] by simp
  have 3: "good n 0 ?t2 (advances after ?t2)"
    using good_sound[OF 2] assms(2) by (rule good_advances)
  from good_trans[OF good_trans[OF 1 2] 3]
  have "good n 1 ?t0 (advances (before @ Call rq n # after) ?t0)"
    by (simp add: advances_append advances_Cons)
  then show ?thesis
    using newClient_owes[of n u p ul] by (simp add: good_def)
qed

lemma queue_callback_once:
  assumes "calls n s = 0" and "pending n s = 0" and "\<forall>ev\<in>set evs. \<not> mentions n ev"
  shows "calls n (run evs (perform op (UserFn n e) s)) \<le> 1"
proof -
  have "within n (occ n (UserFn n e)) s (perform op (UserFn n e) s)"
    by (rule within_perform)
  moreover have "within n 0 (perform op (UserFn n e) s) (run evs (perform op (UserFn n e) s))"
    using assms(3) by (rule within_run)
  ultimately show ?thesis
    using assms(1,2) by (simp add: within_def)
qed

lemma listEvents_answered:
  "answered (advances (Call (ListReq ''/pub'') 0 # listEvents) (newClient [] [] False))
     = [(0, None, Text ''drwxr-xr-x 2 ftp ftp 4096 Jan 01 00:00 pub'')]"
  by code_simp

lemma pwdReplies_invoked:
  "map fst (invoked (run pwdReplies (perform (RawOp [''pwd'']) (UserFn 0 None) (newFTP [] [])))) = [0]"
  by code_simp

text \<open>
  Claim C6. A function of the caller is called once at most for each time it is handed to a
  method.

  For the methods that go to the command queue alone (\<open>raw\<close>, \<open>execute\<close>, \<open>auth\<close>,
  \<open>getFeatures\<close>, \<open>setType\<close>, \<open>rename\<close>): the function \<open>n\<close>, which was neither called nor
  pending in the session, is handed to the method; whatever replies and other events follow,
  a reply that comes twice among them, \<open>n\<close> has been called once at most, as long as the
  caller does not hand \<open>n\<close> over again.

  For the methods that open a data connection (\<open>getPasvSocket\<close>, \<open>list\<close>,
  \<open>getGetSocket\<close>, \<open>get\<close>, \<open>put\<close>, \<open>ls\<close>): starting from a new client, after any events
  the function \<open>m\<close> is handed to the method; whatever is called afterwards, in any order
  and with any arguments, \<open>m\<close> has been called once at most, as long as the caller does not
  hand \<open>m\<close> over again. The listeners added with \<open>on\<close> (for \<open>close\<close>, \<open>end\<close>, \<open>error\<close>,
  \<open>data\<close>) and the callbacks of the commands \<open>pasv\<close>, \<open>list\<close>, \<open>retr\<close> and \<open>stor\<close> may be
  called as often as one likes; a listener added with \<open>once\<close> (for \<open>close\<close>, \<open>error\<close>,
  \<open>timeout\<close>), the callback of \<open>fs.stat\<close>, that of the listing parser and that of the
  command \<open>stat\<close> of \<open>ls\<close> are called once at most.
\<close>

theorem callback_at_most_once:
  assumes "calls n s = 0" and "pending n s = 0" and "\<forall>ev\<in>set evs. \<not> mentions n ev"
    and "\<forall>ev\<in>set before. \<not> hands m ev" and "\<forall>ev\<in>set after. \<not> hands m ev"
  shows "calls n (run evs (perform op (UserFn n e) s)) \<le> 1
       \<and> answers m (advances (before @ Call rq m # after) (newClient u p ul)) \<le> 1"
  using queue_callback_once[OF assms(1-3)] data_callback_once[OF assms(4,5)]
  by simp

theorem callback_at_most_once_witness:
  "calls 0 (run pwdReplies (perform (RawOp [''pwd'']) (UserFn 0 None) (newFTP [] []))) = 1
   \<and> answers 0 (advances ([] @ Call (ListReq ''/pub'') 0 # listEvents) (newClient [] [] False)) = 1"
proof -
  have q: "calls 0 (newFTP [] []) = 0" "pending 0 (newFTP [] []) = 0"
    "\<forall>ev\<in>set pwdReplies. \<not> mentions 0 ev"
    by (simp_all add: calls_def pending_def newFTP_def pwdReplies_def)
  have d: "\<forall>ev\<in>set []. \<not> hands 0 ev" "\<forall>ev\<in>set listEvents. \<not> hands 0 ev"
    by (simp_all add: listEvents_def)
  note t = callback_at_most_once[OF q d, of "RawOp [''pwd'']" None "ListReq ''/pub''" "[]" "[]" False]
  have "0 < calls 0 (run pwdReplies (perform (RawOp [''pwd'']) (UserFn 0 None) (newFTP [] [])))"
    using pwdReplies_invoked
    by (cases "invoked (run pwdReplies (perform (RawOp [''pwd'']) (UserFn 0 None) (newFTP [] [])))")
       (auto simp: calls_def)
  moreover have "0 < answers 0 (advances ([] @ Call (ListReq ''/pub'') 0 # listEvents) (newClient [] [] False))"
    using listEvents_answered by (simp add: answers_def)
  ultimately show ?thesis
    using t by simp
qed

end
